theory Spec2Isabelle
  imports Main "HOL-Library.AList"
begin

section \<open>The multi-step form of \<^verbatim>\<open>src/components/form.tsx\<close>\<close>

text \<open>
  The component keeps four pieces of React state (\<^verbatim>\<open>previousStep\<close>, \<^verbatim>\<open>currentStep\<close>,
  \<^verbatim>\<open>isSubmitted\<close>, \<^verbatim>\<open>formData\<close>) and the state of the form library obtained from
  \<^verbatim>\<open>useForm\<close>: the current input values read by \<^verbatim>\<open>getValues\<close> and the validation
  errors. Event handlers are functions from state to state.

  A handler is a closure of the render that created it. Where the source reads
  \<^verbatim>\<open>currentStep\<close>, the handler reads the value that render had, while the functional
  updates \<^verbatim>\<open>setCurrentStep((step) => step + 1)\<close> and \<^verbatim>\<open>setFormData(prev => ...)\<close> act on the
  live state. The asynchronous \<^verbatim>\<open>next\<close> ends before the page is rendered again and Next is
  never disabled, so a second click can run the handler of the old render. The state
  therefore holds the live \<^verbatim>\<open>currentStep\<close> and, apart from it, the index of the render the
  page shows.
\<close>

subsection \<open>JavaScript values and objects\<close>

text \<open>
  A field value is a string, a boolean or \<^verbatim>\<open>undefined\<close>. An object is an association list
  in insertion order; reading a missing key gives \<^verbatim>\<open>undefined\<close>, and a key may also be
  mapped to \<^verbatim>\<open>undefined\<close> explicitly.
\<close>

datatype jsval = Undefined | Str string | Bool bool

type_synonym obj = "(string \<times> jsval) list"

definition obj_get :: "obj \<Rightarrow> string \<Rightarrow> jsval" where
  "obj_get ob k = (case map_of ob k of None \<Rightarrow> Undefined | Some v \<Rightarrow> v)"

definition obj_keys :: "obj \<Rightarrow> string list" where
  "obj_keys ob = map fst ob"

text \<open>\<^verbatim>\<open>{ ...prev, ...more }\<close>: the entries of \<^verbatim>\<open>prev\<close>, each entry of \<^verbatim>\<open>more\<close> assigned in turn.\<close>

definition spread :: "obj \<Rightarrow> obj \<Rightarrow> obj" where
  "spread prv more = fold (\<lambda>(k, v) acc. AList.update k v acc) more prv"

subsection \<open>The schema and its validator\<close>

text \<open>
  \<^verbatim>\<open>FormDataSchema\<close> uses three kinds of field: \<^verbatim>\<open>z.string().min(n, msg)\<close>,
  \<^verbatim>\<open>z.string().email(msg)\<close> and \<^verbatim>\<open>z.boolean().optional()\<close>. The message of a failed
  \<^verbatim>\<open>min\<close> or \<^verbatim>\<open>email\<close> check is the one the schema gives; the message for a value of the
  wrong type (or a missing required value) is the validation library's own and is kept
  abstract. The pattern the library accepts as an e-mail address is not part of the
  repository: it is the parameter \<open>is_email\<close> of everything that validates.
\<close>

datatype zod_type = ZString_min nat string | ZString_email string | ZBoolean_optional

datatype message = Message string | Invalid_type

definition FormDataSchema :: "(string \<times> zod_type) list" where
  "FormDataSchema =
    [(''firstName'', ZString_min 1 ''First name is required''),
     (''lastName'', ZString_min 1 ''Last name is required''),
     (''email'', ZString_email ''Invalid email address''),
     (''country'', ZString_min 1 ''Country is required''),
     (''state'', ZString_min 1 ''State is required''),
     (''city'', ZString_min 1 ''City is required''),
     (''street'', ZString_min 1 ''Street is required''),
     (''zip'', ZString_min 1 ''ZIP code is required''),
     (''joinNewsletter'', ZBoolean_optional),
     (''enableNotification'', ZBoolean_optional)]"

fun check :: "(string \<Rightarrow> bool) \<Rightarrow> zod_type \<Rightarrow> jsval \<Rightarrow> message option" where
  "check is_email (ZString_min n msg) (Str s) = (if length s < n then Some (Message msg) else None)"
| "check is_email (ZString_min n msg) v = Some Invalid_type"
| "check is_email (ZString_email msg) (Str s) = (if is_email s then None else Some (Message msg))"
| "check is_email (ZString_email msg) v = Some Invalid_type"
| "check is_email ZBoolean_optional Undefined = None"
| "check is_email ZBoolean_optional (Bool b) = None"
| "check is_email ZBoolean_optional (Str s) = Some Invalid_type"

text \<open>The error of one field under the schema; a name the schema does not have has none.\<close>

definition field_error :: "(string \<Rightarrow> bool) \<Rightarrow> (string \<Rightarrow> jsval) \<Rightarrow> string \<Rightarrow> message option" where
  "field_error is_email vals f =
     (case map_of FormDataSchema f of None \<Rightarrow> None | Some ty \<Rightarrow> check is_email ty (vals f))"

text \<open>
  \<^verbatim>\<open>zodResolver(FormDataSchema)\<close>: parses all current values and returns the errors of
  every schema field that fails, in schema order.
\<close>

definition resolver :: "(string \<Rightarrow> bool) \<Rightarrow> (string \<Rightarrow> jsval) \<Rightarrow> (string \<times> message) list" where
  "resolver is_email vals =
     List.map_filter
       (\<lambda>(f, ty). case check is_email ty (vals f) of None \<Rightarrow> None | Some m \<Rightarrow> Some (f, m))
       FormDataSchema"

subsection \<open>Steps\<close>

text \<open>The review step has no \<^verbatim>\<open>fields\<close> property: \<open>None\<close>.\<close>

record step =
  step_id :: string
  step_name :: string
  step_fields :: "string list option"

definition steps :: "step list" where
  "steps =
    [\<lparr>step_id = ''Step 1'', step_name = ''Personal Information'',
      step_fields = Some [''firstName'', ''lastName'', ''email'']\<rparr>,
     \<lparr>step_id = ''Step 2'', step_name = ''Address Details'',
      step_fields = Some [''country'', ''state'', ''city'', ''street'', ''zip'']\<rparr>,
     \<lparr>step_id = ''Step 3'', step_name = ''Preferences'',
      step_fields = Some [''joinNewsletter'', ''enableNotification'']\<rparr>,
     \<lparr>step_id = ''Step 4'', step_name = ''Review & Submit'', step_fields = None\<rparr>]"

subsection \<open>Component state\<close>

text \<open>
  \<open>calls\<close> is the sequence of calls the handlers have made to the validation entry
  points, to the submit callback and to the step setter, oldest first. \<open>renderedStep\<close>
  is the value of \<^verbatim>\<open>currentStep\<close> in the render the page shows: it decides which inputs and
  buttons exist and it is what the handlers' closures hold.
\<close>

datatype call = Trigger "string list option" | HandleSubmit | ProcessForm | SetCurrentStep

record form =
  previousStep :: int
  currentStep :: int
  isSubmitted :: bool
  formData :: obj
  formValues :: "string \<Rightarrow> jsval"
  errors :: "string \<Rightarrow> message option"
  calls :: "call list"
  renderedStep :: int

definition in_range :: "int \<Rightarrow> bool" where
  "in_range i = (0 \<le> i \<and> i < int (length steps))"

text \<open>\<^verbatim>\<open>steps[currentStep]?.fields || []\<close>\<close>

definition fields_or_empty :: "int \<Rightarrow> string list" where
  "fields_or_empty i =
     (if in_range i then (case step_fields (steps ! nat i) of None \<Rightarrow> [] | Some fs \<Rightarrow> fs) else [])"

subsection \<open>Form library operations\<close>

definition setValue :: "string \<Rightarrow> jsval \<Rightarrow> form \<Rightarrow> form" where
  "setValue f v st = st\<lparr>formValues := (formValues st)(f := v)\<rparr>"

text \<open>
  \<^verbatim>\<open>trigger(names)\<close> runs the resolver; with names it sets or clears the error of each
  named field and succeeds when none of them has an error, without names it replaces all
  errors and succeeds when there is none.
\<close>

definition trigger :: "(string \<Rightarrow> bool) \<Rightarrow> string list option \<Rightarrow> form \<Rightarrow> bool \<times> form" where
  "trigger is_email names st =
     (let errs = resolver is_email (formValues st);
          st1 = st\<lparr>calls := calls st @ [Trigger names]\<rparr>
      in case names of
           None \<Rightarrow> (errs = [], st1\<lparr>errors := map_of errs\<rparr>)
         | Some ns \<Rightarrow>
             (\<not> list_ex (\<lambda>n. map_of errs n \<noteq> None) ns,
              st1\<lparr>errors := fold (\<lambda>n e. e(n := map_of errs n)) ns (errors st1)\<rparr>))"

definition processForm :: "form \<Rightarrow> form" where
  "processForm st = st\<lparr>isSubmitted := True, calls := calls st @ [ProcessForm]\<rparr>"

text \<open>
  \<^verbatim>\<open>handleSubmit(processForm)()\<close>: validates the whole schema, replaces the errors and
  calls the callback when there is no error.
\<close>

definition handleSubmit :: "(string \<Rightarrow> bool) \<Rightarrow> form \<Rightarrow> form" where
  "handleSubmit is_email st =
     (let errs = resolver is_email (formValues st);
          st1 = st\<lparr>errors := map_of errs, calls := calls st @ [HandleSubmit]\<rparr>
      in if errs = [] then processForm st1 else st1)"

text \<open>
  The page's controls. Only the inputs of the step shown are mounted: text inputs on the
  first two steps, checkboxes on the third, none on the review step. When the form
  library mounts a control whose value is still \<^verbatim>\<open>undefined\<close>, it takes the value of the
  element: the empty string for a text input, \<^verbatim>\<open>false\<close> for a checkbox. A value the form
  already holds is kept, also while the control is not mounted.
\<close>

datatype control = TextInput | Checkbox

definition rendered_inputs :: "int \<Rightarrow> (string \<times> control) list" where
  "rendered_inputs i =
     (if i = 0 then [(''firstName'', TextInput), (''lastName'', TextInput), (''email'', TextInput)]
      else if i = 1 then [(''country'', TextInput), (''state'', TextInput), (''city'', TextInput),
                          (''street'', TextInput), (''zip'', TextInput)]
      else if i = 2 then [(''joinNewsletter'', Checkbox), (''enableNotification'', Checkbox)]
      else [])"

fun mount_value :: "control \<Rightarrow> jsval" where
  "mount_value TextInput = Str []"
| "mount_value Checkbox = Bool False"

definition mount :: "int \<Rightarrow> form \<Rightarrow> form" where
  "mount i st =
     fold (\<lambda>(f, c) s. if formValues s f = Undefined then setValue f (mount_value c) s else s)
       (rendered_inputs i) st"

subsection \<open>The component's handlers\<close>

text \<open>
  Each handler takes the \<^verbatim>\<open>currentStep\<close> of its closure as the argument \<open>c\<close>; the state
  it works on is the live one.
\<close>

definition saveStepData_from :: "int \<Rightarrow> form \<Rightarrow> form" where
  "saveStepData_from c st =
     (let currentValues = formValues st;
          currentFields = fields_or_empty c;
          stepData = fold (\<lambda>field acc.
                       let v = currentValues field
                       in if v \<noteq> Undefined then AList.update field v acc else acc)
                     currentFields []
      in st\<lparr>formData := spread (formData st) stepData\<rparr>)"

datatype js_error = TypeError

text \<open>
  \<^verbatim>\<open>steps[currentStep].fields\<close> throws when the index is outside the table; the handler
  then ends with nothing changed.
\<close>

definition next_from :: "(string \<Rightarrow> bool) \<Rightarrow> int \<Rightarrow> form \<Rightarrow> js_error + form" where
  "next_from is_email c st =
     (if \<not> in_range c then Inl TypeError
      else
        let (output, st1) = trigger is_email (step_fields (steps ! nat c)) st
        in if \<not> output then Inr st1
           else
             let st2 = saveStepData_from c st1
             in if c < int (length steps) - 1 then
                  let st3 = (if c = int (length steps) - 2
                             then handleSubmit is_email st2 else st2)
                  in Inr (st3\<lparr>previousStep := c,
                              currentStep := currentStep st3 + 1,
                              calls := calls st3 @ [SetCurrentStep]\<rparr>)
                else Inr st2)"

definition prev_from :: "int \<Rightarrow> form \<Rightarrow> form" where
  "prev_from c st =
     (if c > 0
      then st\<lparr>previousStep := c, currentStep := currentStep st - 1,
              calls := calls st @ [SetCurrentStep]\<rparr>
      else st)"

text \<open>
  The handlers of a render that is up to date: the closure holds the live
  \<^verbatim>\<open>currentStep\<close>.
\<close>

definition saveStepData :: "form \<Rightarrow> form" where
  "saveStepData st = saveStepData_from (currentStep st) st"

definition next_handler :: "(string \<Rightarrow> bool) \<Rightarrow> form \<Rightarrow> js_error + form" where
  "next_handler is_email st = next_from is_email (currentStep st) st"

definition prev :: "form \<Rightarrow> form" where
  "prev st = prev_from (currentStep st) st"

definition formatValue :: "jsval \<Rightarrow> string" where
  "formatValue v =
     (case v of
        Bool b \<Rightarrow> (if b then ''Yes'' else ''No'')
      | Str s \<Rightarrow> (if s = [] then ''Not provided'' else s)
      | Undefined \<Rightarrow> ''Not provided'')"

text \<open>What the review step shows for a field: \<^verbatim>\<open>formatValue(formData[field])\<close>.\<close>

definition review :: "form \<Rightarrow> string \<Rightarrow> string" where
  "review st field = formatValue (obj_get (formData st) field)"

definition loadStepData :: "form \<Rightarrow> form" where
  "loadStepData st =
     fold (\<lambda>field s. setValue field (obj_get (formData st) field) s) (obj_keys (formData st)) st"

subsection \<open>Renders and events\<close>

text \<open>
  A render commits the live state to the page. When \<^verbatim>\<open>currentStep\<close> differs from the one
  shown, the controls of the new step are mounted and then the effect
  \<^verbatim>\<open>useEffect(() => loadStepData(), [currentStep])\<close> runs. The first render shows step 0
  and runs the effect once.
\<close>

definition render :: "form \<Rightarrow> form" where
  "render st =
     (if currentStep st \<noteq> renderedStep st
      then loadStepData (mount (currentStep st) (st\<lparr>renderedStep := currentStep st\<rparr>))
      else st)"

definition blank :: form where
  "blank = \<lparr>previousStep = 0, currentStep = 0, isSubmitted = False, formData = [],
            formValues = (\<lambda>_. Undefined), errors = (\<lambda>_. None), calls = [],
            renderedStep = 0\<rparr>"

definition init :: form where
  "init = loadStepData (mount 0 blank)"

text \<open>
  An event is an edit of an input, a click on Next or Previous, a submission of the form
  element (whose \<^verbatim>\<open>onSubmit\<close> is \<^verbatim>\<open>handleSubmit(processForm)\<close>), or a render. A click runs
  the handler of the render shown. The update of the synchronous \<^verbatim>\<open>prev\<close> is rendered
  before the next event; the updates of the asynchronous \<^verbatim>\<open>next\<close> are rendered later, by a
  render event of its own.
\<close>

datatype event = Input string jsval | Next | Prev | Submit | Render

fun fire :: "(string \<Rightarrow> bool) \<Rightarrow> form \<Rightarrow> event \<Rightarrow> form" where
  "fire is_email st (Input f v) = setValue f v st"
| "fire is_email st Next =
     (case next_from is_email (renderedStep st) st of Inl e \<Rightarrow> st | Inr st' \<Rightarrow> st')"
| "fire is_email st Prev = render (prev_from (renderedStep st) st)"
| "fire is_email st Submit = handleSubmit is_email st"
| "fire is_email st Render = render st"

definition run :: "(string \<Rightarrow> bool) \<Rightarrow> form \<Rightarrow> event list \<Rightarrow> form" where
  "run is_email st es = foldl (fire is_email) st es"

text \<open>Every state some sequence of events reaches from the initial one.\<close>

inductive reachable :: "(string \<Rightarrow> bool) \<Rightarrow> form \<Rightarrow> bool" for is_email where
  reachable_init: "reachable is_email init"
| reachable_fire: "reachable is_email st \<Longrightarrow> reachable is_email (fire is_email st e)"

text \<open>
  What the page shown offers: the inputs of the step shown take strings (text inputs) or
  booleans (checkboxes), Next is rendered except on the last step, Previous is disabled on
  the first, and the submit button exists only on the review step while \<^verbatim>\<open>isSubmitted\<close> is
  false.
\<close>

fun produces :: "control \<Rightarrow> jsval \<Rightarrow> bool" where
  "produces TextInput (Str s) = True"
| "produces Checkbox (Bool b) = True"
| "produces c v = False"

fun offered :: "form \<Rightarrow> event \<Rightarrow> bool" where
  "offered st (Input f v) =
     list_ex (\<lambda>(g, c). g = f \<and> produces c v) (rendered_inputs (renderedStep st))"
| "offered st Next = (renderedStep st \<noteq> int (length steps) - 1)"
| "offered st Prev = (renderedStep st \<noteq> 0)"
| "offered st Submit = (renderedStep st = 3 \<and> \<not> isSubmitted st)"
| "offered st Render = True"

text \<open>
  An event is timely when the page offers it and, unless it is a render, the page shows
  the live step: no click or edit reaches a page that a pending render is about to
  replace.
\<close>

definition timely :: "form \<Rightarrow> event \<Rightarrow> bool" where
  "timely st e = (offered st e \<and> (e = Render \<or> renderedStep st = currentStep st))"

inductive ui_reachable :: "(string \<Rightarrow> bool) \<Rightarrow> form \<Rightarrow> bool" for is_email where
  ui_init: "ui_reachable is_email init"
| ui_fire: "ui_reachable is_email st \<Longrightarrow> timely st e \<Longrightarrow> ui_reachable is_email (fire is_email st e)"

subsection \<open>Runs\<close>

text \<open>A run in which every event is timely in the state it is fired in.\<close>

fun timely_run :: "(string \<Rightarrow> bool) \<Rightarrow> form \<Rightarrow> event list \<Rightarrow> bool" where
  "timely_run is_email st [] = True"
| "timely_run is_email st (e # es) = (timely st e \<and> timely_run is_email (fire is_email st e) es)"

text \<open>A run in which Next is never clicked while the page shows step \<open>i\<close>.\<close>

fun avoids_next_at :: "(string \<Rightarrow> bool) \<Rightarrow> int \<Rightarrow> form \<Rightarrow> event list \<Rightarrow> bool" where
  "avoids_next_at is_email i st [] = True"
| "avoids_next_at is_email i st (e # es) =
     (\<not> (e = Next \<and> renderedStep st = i) \<and> avoids_next_at is_email i (fire is_email st e) es)"

fun sets_field :: "string \<Rightarrow> event \<Rightarrow> bool" where
  "sets_field f (Input g v) = (g = f)"
| "sets_field f e = False"

text \<open>
  The calls that validate the whole schema: \<^verbatim>\<open>handleSubmit\<close>, and \<^verbatim>\<open>trigger\<close> without
  names.
\<close>

definition full_validation :: "call \<Rightarrow> bool" where
  "full_validation c = (c = HandleSubmit \<or> c = Trigger None)"

definition validation :: "call \<Rightarrow> bool" where
  "validation c = (case c of Trigger ns \<Rightarrow> True | HandleSubmit \<Rightarrow> True | _ \<Rightarrow> False)"

text \<open>
  What holds of every state reached by timely events: the index is inside the table,
  every recorded value passes its schema check, the inputs of all earlier steps pass
  theirs, and the review step is only reached with \<^verbatim>\<open>isSubmitted\<close> set.
\<close>

definition ui_inv :: "(string \<Rightarrow> bool) \<Rightarrow> form \<Rightarrow> bool" where
  "ui_inv is_email st =
     (in_range (currentStep st) \<and>
      (\<forall>k \<in> set (obj_keys (formData st)). field_error is_email (obj_get (formData st)) k = None) \<and>
      (\<forall>j f. 0 \<le> j \<and> j < currentStep st \<and> f \<in> set (fields_or_empty j)
             \<longrightarrow> field_error is_email (formValues st) f = None) \<and>
      (currentStep st = int (length steps) - 1 \<longrightarrow> isSubmitted st))"

subsection \<open>Example inputs\<close>

text \<open>A stand-in for the library's e-mail pattern: the address contains an at sign.\<close>

definition sample_email :: "string \<Rightarrow> bool" where
  "sample_email s = (CHR ''@'' \<in> set s)"

definition personal_inputs :: "event list" where
  "personal_inputs =
     [Input ''firstName'' (Str ''Ada''), Input ''lastName'' (Str ''Lovelace''),
      Input ''email'' (Str ''ada@example.org'')]"

definition address_inputs :: "event list" where
  "address_inputs =
     [Input ''country'' (Str ''UK''), Input ''state'' (Str ''England''),
      Input ''city'' (Str ''London''), Input ''street'' (Str ''12 St James Square''),
      Input ''zip'' (Str ''SW1Y'')]"

section \<open>Properties\<close>

subsection \<open>Tables and the validator\<close>

lemma length_steps: "length steps = 4"
  by (simp add: steps_def)

lemma in_range_iff: "in_range i \<longleftrightarrow> 0 \<le> i \<and> i < 4"
  by (simp add: in_range_def length_steps)

lemma map_of_map_filter_schema:
  "distinct (map fst sch) \<Longrightarrow>
   map_of (List.map_filter (\<lambda>(f, ty). case g ty (vals f) of None \<Rightarrow> None | Some m \<Rightarrow> Some (f, m)) sch) n
     = (case map_of sch n of None \<Rightarrow> None | Some ty \<Rightarrow> g ty (vals n))"
proof (induction sch)
  case Nil
  then show ?case by (simp add: List.map_filter_simps)
next
  case (Cons a sch)
  obtain f ty where a: "a = (f, ty)" by (cases a)
  from Cons have IH: "map_of (List.map_filter (\<lambda>(f, ty). case g ty (vals f) of None \<Rightarrow> None | Some m \<Rightarrow> Some (f, m)) sch) n
     = (case map_of sch n of None \<Rightarrow> None | Some ty \<Rightarrow> g ty (vals n))" by simp
  from Cons.prems a have nf: "f \<notin> fst ` set sch" by simp
  then have mf: "map_of sch f = None" by (simp add: map_of_eq_None_iff)
  show ?case
    using IH mf by (cases "g ty (vals f)") (auto simp: a List.map_filter_simps)
qed

lemma distinct_schema: "distinct (map fst FormDataSchema)"
  by (simp add: FormDataSchema_def)

lemma map_of_resolver: "map_of (resolver ie vals) n = field_error ie vals n"
  unfolding resolver_def field_error_def
  by (rule map_of_map_filter_schema [OF distinct_schema])

lemma resolver_Nil_iff: "resolver ie vals = [] \<longleftrightarrow> (\<forall>n. field_error ie vals n = None)"
proof
  assume "resolver ie vals = []"
  then show "\<forall>n. field_error ie vals n = None"
    using map_of_resolver [of ie vals] by simp
next
  assume a: "\<forall>n. field_error ie vals n = None"
  then have "map_of (resolver ie vals) = Map.empty"
    by (simp add: fun_eq_iff map_of_resolver)
  then show "resolver ie vals = []" by simp
qed


subsection \<open>Library operations\<close>

lemma trigger_errors_fold:
  "fold (\<lambda>n e. e(n := h n)) ns e0 k = (if k \<in> set ns then h k else e0 k)"
  by (induction ns arbitrary: e0) auto

lemma trigger_Some_fst:
  "fst (trigger ie (Some ns) st) \<longleftrightarrow> (\<forall>n\<in>set ns. field_error ie (formValues st) n = None)"
  by (simp add: trigger_def Let_def list_ex_iff map_of_resolver)

lemma trigger_None_fst:
  "fst (trigger ie None st) \<longleftrightarrow> (\<forall>n. field_error ie (formValues st) n = None)"
  by (simp add: trigger_def Let_def resolver_Nil_iff)

lemma trigger_Some_snd:
  "snd (trigger ie (Some ns) st) =
     st\<lparr>errors := (\<lambda>k. if k \<in> set ns then field_error ie (formValues st) k else errors st k),
        calls := calls st @ [Trigger (Some ns)]\<rparr>"
  by (simp add: trigger_def Let_def trigger_errors_fold map_of_resolver fun_eq_iff)

lemma trigger_None_snd:
  "snd (trigger ie None st) =
     st\<lparr>errors := field_error ie (formValues st), calls := calls st @ [Trigger None]\<rparr>"
  by (simp add: trigger_def Let_def map_of_resolver fun_eq_iff)

lemma handleSubmit_eq:
  "handleSubmit ie st =
     (if \<forall>n. field_error ie (formValues st) n = None
      then st\<lparr>errors := field_error ie (formValues st), isSubmitted := True,
              calls := calls st @ [HandleSubmit, ProcessForm]\<rparr>
      else st\<lparr>errors := field_error ie (formValues st), calls := calls st @ [HandleSubmit]\<rparr>)"
  by (auto simp: handleSubmit_def processForm_def Let_def resolver_Nil_iff map_of_resolver fun_eq_iff)

lemma stepData_map_of:
  "map_of (fold (\<lambda>field acc. let v = vals field in if v \<noteq> Undefined then AList.update field v acc else acc) fs acc) k
     = (if k \<in> set fs \<and> vals k \<noteq> Undefined then Some (vals k) else map_of acc k)"
  by (induction fs arbitrary: acc) (auto simp: Let_def update_conv')

lemma spread_map_of:
  "map_of (spread p m) = map_of p ++ map_of (rev m)"
  unfolding spread_def
proof (induction m arbitrary: p)
  case Nil
  then show ?case by simp
next
  case (Cons a m)
  obtain k v where a: "a = (k, v)" by (cases a)
  show ?case
    by (simp add: a Cons.IH update_conv' map_add_upd_left fun_eq_iff map_add_def split: option.splits)
qed


subsection \<open>Saving, loading and mounting\<close>

lemma map_of_rev_distinct:
  assumes "distinct (map fst xs)"
  shows "map_of (rev xs) = map_of xs"
proof (rule ext)
  fix k
  have d: "distinct (map fst (rev xs))" using assms by (simp add: rev_map [symmetric])
  show "map_of (rev xs) k = map_of xs k"
  proof (cases "map_of xs k")
    case None
    then have "k \<notin> fst ` set (rev xs)" by (simp add: map_of_eq_None_iff)
    then have "map_of (rev xs) k = None" by (simp only: map_of_eq_None_iff [symmetric])
    with None show ?thesis by simp
  next
    case (Some v)
    then have "(k, v) \<in> set (rev xs)" using assms by simp
    then have "map_of (rev xs) k = Some v" using d by (simp only: map_of_eq_Some_iff)
    with Some show ?thesis by simp
  qed
qed

lemma stepData_distinct:
  "distinct (map fst acc) \<Longrightarrow>
   distinct (map fst (fold (\<lambda>field acc. if vals field \<noteq> Undefined then AList.update field (vals field) acc else acc) fs acc))"
  by (induction fs arbitrary: acc) (auto simp: distinct_update)

lemma saveStepData_from_map_of:
  "map_of (formData (saveStepData_from c st)) k =
     (if k \<in> set (fields_or_empty c) \<and> formValues st k \<noteq> Undefined
      then Some (formValues st k) else map_of (formData st) k)"
proof -
  let ?sd = "fold (\<lambda>field acc. if formValues st field \<noteq> Undefined then AList.update field (formValues st field) acc else acc)
               (fields_or_empty c) []"
  have d: "distinct (map fst ?sd)" by (rule stepData_distinct) simp
  have "map_of (formData (saveStepData_from c st)) = map_of (formData st) ++ map_of ?sd"
    by (simp add: saveStepData_from_def Let_def spread_map_of map_of_rev_distinct [OF d])
  then show ?thesis
    using stepData_map_of [of "formValues st" "fields_or_empty c" "[]" k]
    by (simp add: map_add_def Let_def)
qed

lemma saveStepData_from_other:
  "currentStep (saveStepData_from c st) = currentStep st"
  "previousStep (saveStepData_from c st) = previousStep st"
  "isSubmitted (saveStepData_from c st) = isSubmitted st"
  "formValues (saveStepData_from c st) = formValues st"
  "errors (saveStepData_from c st) = errors st"
  "calls (saveStepData_from c st) = calls st"
  "renderedStep (saveStepData_from c st) = renderedStep st"
  by (simp_all add: saveStepData_from_def Let_def)

lemma obj_keys_dom: "set (obj_keys ob) = dom (map_of ob)"
  by (simp add: obj_keys_def dom_map_of_conv_image_fst)

lemma saveStepData_from_keys:
  "set (obj_keys (formData (saveStepData_from c st))) =
     set (obj_keys (formData st)) \<union>
     {f \<in> set (fields_or_empty c). formValues st f \<noteq> Undefined}"
  by (auto simp: obj_keys_dom dom_def saveStepData_from_map_of split: if_splits)

lemma saveStepData_from_get:
  "obj_get (formData (saveStepData_from c st)) k =
     (if k \<in> set (fields_or_empty c) \<and> formValues st k \<noteq> Undefined
      then formValues st k else obj_get (formData st) k)"
  by (simp add: obj_get_def saveStepData_from_map_of)




lemma loadStepData_fold:
  "fold (\<lambda>field s. setValue field (h field) s) ks st =
     st\<lparr>formValues := (\<lambda>f. if f \<in> set ks then h f else formValues st f)\<rparr>"
proof (induction ks arbitrary: st)
  case Nil
  then show ?case by simp
next
  case (Cons k ks)
  have "fold (\<lambda>field s. setValue field (h field) s) (k # ks) st =
        fold (\<lambda>field s. setValue field (h field) s) ks (setValue k (h k) st)"
    by simp
  also have "\<dots> = (setValue k (h k) st)\<lparr>formValues :=
                 (\<lambda>f. if f \<in> set ks then h f else formValues (setValue k (h k) st) f)\<rparr>"
    by (rule Cons.IH)
  also have "\<dots> = st\<lparr>formValues := (\<lambda>f. if f \<in> set (k # ks) then h f else formValues st f)\<rparr>"
    by (simp add: setValue_def fun_eq_iff)
  finally show ?case .
qed

lemma loadStepData_eq:
  "loadStepData st =
     st\<lparr>formValues := (\<lambda>f. if f \<in> set (obj_keys (formData st))
                              then obj_get (formData st) f else formValues st f)\<rparr>"
  by (simp add: loadStepData_def loadStepData_fold)

lemma fields_or_empty_eq:
  "fields_or_empty i =
     (if i = 0 then [''firstName'', ''lastName'', ''email'']
      else if i = 1 then [''country'', ''state'', ''city'', ''street'', ''zip'']
      else if i = 2 then [''joinNewsletter'', ''enableNotification'']
      else [])"
proof -
  consider "i < 0" | "i = 0" | "i = 1" | "i = 2" | "i = 3" | "i > 3" by linarith
  then show ?thesis
    by cases (simp_all add: fields_or_empty_def in_range_iff steps_def)
qed

lemma step_fields_eq:
  "in_range i \<Longrightarrow>
   step_fields (steps ! nat i) = (if i = 3 then None else Some (fields_or_empty i))"
proof -
  assume "in_range i"
  then have "0 \<le> i" "i < 4" by (simp_all add: in_range_iff)
  then consider "i = 0" | "i = 1" | "i = 2" | "i = 3" by linarith
  then show ?thesis
    by cases (simp_all add: fields_or_empty_def in_range_iff steps_def)
qed

lemma rendered_names: "map fst (rendered_inputs i) = fields_or_empty i"
  by (simp add: rendered_inputs_def fields_or_empty_eq)

lemma fields_disjoint:
  "i \<noteq> j \<Longrightarrow> f \<in> set (fields_or_empty i) \<Longrightarrow> f \<notin> set (fields_or_empty j)"
  by (auto simp: fields_or_empty_eq split: if_splits)

lemma schema_cover:
  "map_of FormDataSchema n = Some ty \<Longrightarrow>
   n \<in> set (fields_or_empty 0) \<union> set (fields_or_empty 1) \<union> set (fields_or_empty 2)"
proof -
  assume "map_of FormDataSchema n = Some ty"
  then have "(n, ty) \<in> set FormDataSchema" by (rule map_of_SomeD)
  then have "n \<in> fst ` set FormDataSchema" by (rule image_eqI [rotated]) simp
  then show ?thesis by (auto simp: FormDataSchema_def fields_or_empty_eq)
qed

lemma field_error_cong: "vals f = vals' f \<Longrightarrow> field_error ie vals f = field_error ie vals' f"
  by (simp add: field_error_def split: option.splits)

lemma mount_fold_frame:
  "currentStep (fold (\<lambda>(f, c) s. if formValues s f = Undefined then setValue f (mount_value c) s else s) xs st) = currentStep st"
  "previousStep (fold (\<lambda>(f, c) s. if formValues s f = Undefined then setValue f (mount_value c) s else s) xs st) = previousStep st"
  "isSubmitted (fold (\<lambda>(f, c) s. if formValues s f = Undefined then setValue f (mount_value c) s else s) xs st) = isSubmitted st"
  "formData (fold (\<lambda>(f, c) s. if formValues s f = Undefined then setValue f (mount_value c) s else s) xs st) = formData st"
  "errors (fold (\<lambda>(f, c) s. if formValues s f = Undefined then setValue f (mount_value c) s else s) xs st) = errors st"
  "calls (fold (\<lambda>(f, c) s. if formValues s f = Undefined then setValue f (mount_value c) s else s) xs st) = calls st"
  "renderedStep (fold (\<lambda>(f, c) s. if formValues s f = Undefined then setValue f (mount_value c) s else s) xs st) = renderedStep st"
  by (induction xs arbitrary: st; simp add: setValue_def split_beta)+

lemma mount_value_defined: "mount_value c \<noteq> Undefined"
  by (cases c) simp_all

lemma mount_fold_formValues:
  "formValues (fold (\<lambda>(f, c) s. if formValues s f = Undefined then setValue f (mount_value c) s else s) xs st) k =
     (if formValues st k = Undefined
      then (case map_of xs k of None \<Rightarrow> Undefined | Some c \<Rightarrow> mount_value c)
      else formValues st k)"
proof (induction xs arbitrary: st)
  case Nil
  then show ?case by simp
next
  case (Cons x xs)
  obtain f c where x: "x = (f, c)" by (cases x)
  show ?case
    by (simp add: x Cons.IH setValue_def mount_value_defined)
qed

lemma mount_frame:
  "currentStep (mount i st) = currentStep st"
  "previousStep (mount i st) = previousStep st"
  "isSubmitted (mount i st) = isSubmitted st"
  "formData (mount i st) = formData st"
  "errors (mount i st) = errors st"
  "calls (mount i st) = calls st"
  "renderedStep (mount i st) = renderedStep st"
  by (simp_all add: mount_def mount_fold_frame)

lemma mount_formValues:
  "formValues (mount i st) k =
     (if formValues st k = Undefined
      then (case map_of (rendered_inputs i) k of None \<Rightarrow> Undefined | Some c \<Rightarrow> mount_value c)
      else formValues st k)"
  by (simp add: mount_def mount_fold_formValues)

lemma mount_other_step:
  assumes "k \<notin> set (fields_or_empty i)"
  shows "formValues (mount i st) k = formValues st k"
proof -
  from assms have "k \<notin> fst ` set (rendered_inputs i)"
    by (simp add: rendered_names [symmetric])
  then have "map_of (rendered_inputs i) k = None" by (simp add: map_of_eq_None_iff)
  then show ?thesis by (simp add: mount_formValues)
qed

lemma mount_rendered_update:
  "formValues (mount i (st\<lparr>renderedStep := r\<rparr>)) = formValues (mount i st)"
  by (simp add: fun_eq_iff mount_formValues)

lemma render_frame:
  "currentStep (render st) = currentStep st"
  "previousStep (render st) = previousStep st"
  "isSubmitted (render st) = isSubmitted st"
  "formData (render st) = formData st"
  "errors (render st) = errors st"
  "calls (render st) = calls st"
  "renderedStep (render st) = currentStep st"
  by (simp_all add: render_def loadStepData_eq mount_frame)

lemma render_formValues:
  "formValues (render st) f =
     (if currentStep st \<noteq> renderedStep st
      then (if f \<in> set (obj_keys (formData st)) then obj_get (formData st) f
            else formValues (mount (currentStep st) st) f)
      else formValues st f)"
  by (simp add: render_def loadStepData_eq mount_frame mount_rendered_update)

lemma init_frame:
  "currentStep init = 0" "previousStep init = 0" "isSubmitted init = False"
  "formData init = []" "calls init = []" "renderedStep init = 0"
  by (simp_all add: init_def blank_def loadStepData_eq mount_frame)

lemma init_formValues:
  "formValues init k =
     (case map_of (rendered_inputs 0) k of None \<Rightarrow> Undefined | Some c \<Rightarrow> mount_value c)"
  by (simp add: init_def loadStepData_eq mount_frame mount_formValues blank_def obj_keys_def)


subsection \<open>The Next handler\<close>

lemma in_range_cases:
  assumes "in_range i"
  obtains "i = 0" | "i = 1" | "i = 2" | "i = 3"
proof -
  from assms have "0 \<le> i" "i < 4" by (simp_all add: in_range_iff)
  then have "i = 0 \<or> i = 1 \<or> i = 2 \<or> i = 3" by linarith
  then show ?thesis using that by blast
qed

lemma trigger_frame:
  "currentStep (snd (trigger ie names st)) = currentStep st"
  "previousStep (snd (trigger ie names st)) = previousStep st"
  "isSubmitted (snd (trigger ie names st)) = isSubmitted st"
  "formData (snd (trigger ie names st)) = formData st"
  "formValues (snd (trigger ie names st)) = formValues st"
  "renderedStep (snd (trigger ie names st)) = renderedStep st"
  by (cases names; simp add: trigger_def Let_def)+

lemma trigger_calls: "calls (snd (trigger ie names st)) = calls st @ [Trigger names]"
  by (cases names) (simp_all add: trigger_def Let_def)

lemma handleSubmit_frame:
  "currentStep (handleSubmit ie st) = currentStep st"
  "previousStep (handleSubmit ie st) = previousStep st"
  "formData (handleSubmit ie st) = formData st"
  "formValues (handleSubmit ie st) = formValues st"
  "renderedStep (handleSubmit ie st) = renderedStep st"
  by (simp_all add: handleSubmit_eq)

lemma saveStepData_from_trigger:
  "formData (saveStepData_from c (snd (trigger ie names st))) = formData (saveStepData_from c st)"
  by (cases names) (simp_all add: trigger_def saveStepData_from_def Let_def)


lemma next_from_out: "\<not> in_range c \<Longrightarrow> next_from ie c st = Inl TypeError"
  by (simp add: next_from_def)

lemma next_from_in_range: "next_from ie c st = Inr st' \<Longrightarrow> in_range c"
  by (auto simp: next_from_def split: if_splits)

lemma next_from_unfold:
  "in_range c \<Longrightarrow>
   next_from ie c st =
     (let names = step_fields (steps ! nat c);
          st1 = snd (trigger ie names st)
      in if \<not> fst (trigger ie names st) then Inr st1
         else if c = 3 then Inr (saveStepData_from c st1)
         else if c = 2 then
           Inr ((handleSubmit ie (saveStepData_from c st1))
                  \<lparr>previousStep := 2, currentStep := currentStep st + 1,
                   calls := calls (handleSubmit ie (saveStepData_from c st1)) @ [SetCurrentStep]\<rparr>)
         else Inr ((saveStepData_from c st1)
                  \<lparr>previousStep := c, currentStep := currentStep st + 1,
                   calls := calls st1 @ [SetCurrentStep]\<rparr>))"
proof -
  assume "in_range c"
  then show ?thesis
    by (cases rule: in_range_cases)
      (simp_all add: next_from_def in_range_iff length_steps Let_def split_beta
        saveStepData_from_other trigger_frame handleSubmit_frame)
qed

lemma next_handler_out: "\<not> in_range (currentStep st) \<Longrightarrow> next_handler ie st = Inl TypeError"
  by (simp add: next_handler_def next_from_out)


lemma next_handler_unfold:
  "in_range (currentStep st) \<Longrightarrow>
   next_handler ie st =
     (let names = step_fields (steps ! nat (currentStep st));
          st1 = snd (trigger ie names st)
      in if \<not> fst (trigger ie names st) then Inr st1
         else if currentStep st = 3 then Inr (saveStepData st1)
         else if currentStep st = 2 then
           Inr ((handleSubmit ie (saveStepData st1))
                  \<lparr>previousStep := 2, currentStep := 3,
                   calls := calls (handleSubmit ie (saveStepData st1)) @ [SetCurrentStep]\<rparr>)
         else Inr ((saveStepData st1)
                  \<lparr>previousStep := currentStep st, currentStep := currentStep st + 1,
                   calls := calls st1 @ [SetCurrentStep]\<rparr>))"
proof -
  assume r: "in_range (currentStep st)"
  have s: "saveStepData (snd (trigger ie names st)) =
           saveStepData_from (currentStep st) (snd (trigger ie names st))" for names
    by (simp add: saveStepData_def trigger_frame)
  show ?thesis
    by (simp add: next_handler_def next_from_unfold [OF r] s Let_def)
qed

lemma trigger_pass_iff:
  "in_range i \<Longrightarrow>
   fst (trigger ie (step_fields (steps ! nat i)) st) \<longleftrightarrow>
     (if i = 3 then \<forall>n. field_error ie (formValues st) n = None
      else \<forall>n\<in>set (fields_or_empty i). field_error ie (formValues st) n = None)"
  by (simp add: step_fields_eq trigger_Some_fst trigger_None_fst)




lemma next_handler_rejects:
  assumes "f \<in> set (fields_or_empty (currentStep st))"
    and "field_error ie (formValues st) f \<noteq> None"
  shows "\<exists>st'. next_handler ie st = Inr st' \<and>
           currentStep st' = currentStep st \<and> formData st' = formData st \<and>
           previousStep st' = previousStep st \<and> isSubmitted st' = isSubmitted st \<and>
           formValues st' = formValues st \<and>
           errors st' f = field_error ie (formValues st) f \<and> errors st' f \<noteq> None"
proof -
  let ?names = "step_fields (steps ! nat (currentStep st))"
  have r: "in_range (currentStep st)"
  proof (rule ccontr)
    assume "\<not> in_range (currentStep st)"
    then have "fields_or_empty (currentStep st) = []" by (simp add: fields_or_empty_def)
    with assms(1) show False by simp
  qed
  from assms(1) have n3: "currentStep st \<noteq> 3" by (auto simp: fields_or_empty_eq)
  then have names: "?names = Some (fields_or_empty (currentStep st))"
    using r by (simp add: step_fields_eq)
  have "\<not> fst (trigger ie ?names st)"
    using assms n3 r by (auto simp: trigger_pass_iff)
  then have n: "next_handler ie st = Inr (snd (trigger ie ?names st))"
    using r by (simp add: next_handler_unfold Let_def)
  have e: "errors (snd (trigger ie ?names st)) f = field_error ie (formValues st) f"
    using assms(1) by (simp add: names trigger_Some_snd)
  show ?thesis
    using n e assms(2) by (simp add: trigger_frame)
qed


text \<open>
  Claim C9. On the first step, with \<^verbatim>\<open>firstName\<close> the empty string \<^verbatim>\<open>next\<close> leaves the index at
  0 and reports "First name is required" for \<^verbatim>\<open>firstName\<close>; with \<^verbatim>\<open>email\<close> the string "bad",
  which the e-mail pattern rejects, it leaves the index at 0 and reports "Invalid email
  address" for \<^verbatim>\<open>email\<close>.
\<close>

theorem next_handler_examples:
  "(currentStep st = 0 \<and> formValues st ''firstName'' = Str [] \<longrightarrow>
      (\<exists>st'. next_handler ie st = Inr st' \<and> currentStep st' = 0 \<and>
             errors st' ''firstName'' = Some (Message ''First name is required''))) \<and>
   (currentStep st = 0 \<and> formValues st ''email'' = Str ''bad'' \<and> \<not> ie ''bad'' \<longrightarrow>
      (\<exists>st'. next_handler ie st = Inr st' \<and> currentStep st' = 0 \<and>
             errors st' ''email'' = Some (Message ''Invalid email address'')))"
proof (intro conjI impI)
  assume a: "currentStep st = 0 \<and> formValues st ''firstName'' = Str []"
  have fe: "field_error ie (formValues st) ''firstName'' = Some (Message ''First name is required'')"
    using a by (simp add: field_error_def FormDataSchema_def)
  have m: "''firstName'' \<in> set (fields_or_empty (currentStep st))"
    using a by (simp add: fields_or_empty_eq)
  from next_handler_rejects [OF m, of ie] fe a
  show "\<exists>st'. next_handler ie st = Inr st' \<and> currentStep st' = 0 \<and>
             errors st' ''firstName'' = Some (Message ''First name is required'')"
    by auto
next
  assume a: "currentStep st = 0 \<and> formValues st ''email'' = Str ''bad'' \<and> \<not> ie ''bad''"
  have fe: "field_error ie (formValues st) ''email'' = Some (Message ''Invalid email address'')"
    using a by (simp add: field_error_def FormDataSchema_def)
  have m: "''email'' \<in> set (fields_or_empty (currentStep st))"
    using a by (simp add: fields_or_empty_eq)
  from next_handler_rejects [OF m, of ie] fe a
  show "\<exists>st'. next_handler ie st = Inr st' \<and> currentStep st' = 0 \<and>
             errors st' ''email'' = Some (Message ''Invalid email address'')"
    by auto
qed


subsection \<open>Events and runs\<close>

lemma loadStepData_frame:
  "currentStep (loadStepData st) = currentStep st"
  "previousStep (loadStepData st) = previousStep st"
  "isSubmitted (loadStepData st) = isSubmitted st"
  "formData (loadStepData st) = formData st"
  "errors (loadStepData st) = errors st"
  "calls (loadStepData st) = calls st"
  "renderedStep (loadStepData st) = renderedStep st"
  by (simp_all add: loadStepData_eq)

lemma prev_from_frame:
  "formData (prev_from c st) = formData st"
  "errors (prev_from c st) = errors st"
  "isSubmitted (prev_from c st) = isSubmitted st"
  "formValues (prev_from c st) = formValues st"
  "renderedStep (prev_from c st) = renderedStep st"
  by (simp_all add: prev_from_def)

lemma prev_frame:
  "formData (prev st) = formData st"
  "errors (prev st) = errors st"
  "isSubmitted (prev st) = isSubmitted st"
  "formValues (prev st) = formValues st"
  by (simp_all add: prev_def prev_from_frame)

lemma next_from_formData:
  assumes "next_from ie c st = Inr st'"
  shows "formData st' = formData st \<or> formData st' = formData (saveStepData_from c st)"
proof -
  from assms have r: "in_range c" by (rule next_from_in_range)
  show ?thesis
    using assms
    by (auto simp: next_from_unfold [OF r] Let_def trigger_frame handleSubmit_frame
        saveStepData_from_trigger saveStepData_from_other split: if_splits)
qed

lemma next_from_formValues:
  assumes "next_from ie c st = Inr st'"
  shows "formValues st' = formValues st" and "renderedStep st' = renderedStep st"
proof -
  from assms have r: "in_range c" by (rule next_from_in_range)
  show "formValues st' = formValues st"
    using assms
    by (auto simp: next_from_unfold [OF r] Let_def trigger_frame handleSubmit_frame
        saveStepData_from_other split: if_splits)
  show "renderedStep st' = renderedStep st"
    using assms
    by (auto simp: next_from_unfold [OF r] Let_def trigger_frame handleSubmit_frame
        saveStepData_from_other split: if_splits)
qed

lemma fire_formData:
  "formData (fire ie st e) = formData st \<or>
   (e = Next \<and> formData (fire ie st e) = formData (saveStepData_from (renderedStep st) st))"
proof (cases e)
  case (Input f v)
  then show ?thesis by (simp add: setValue_def)
next
  case Next
  show ?thesis
  proof (cases "next_from ie (renderedStep st) st")
    case (Inl a)
    then show ?thesis using Next by simp
  next
    case (Inr st')
    from next_from_formData [OF Inr] show ?thesis
      using Next Inr by auto
  qed
next
  case Prev
  then show ?thesis by (simp add: render_frame prev_from_frame)
next
  case Submit
  then show ?thesis by (simp add: handleSubmit_frame)
next
  case Render
  then show ?thesis by (simp add: render_frame)
qed

lemma fire_keys_mono: "set (obj_keys (formData st)) \<subseteq> set (obj_keys (formData (fire ie st e)))"
  using fire_formData [of ie st e] by (auto simp: saveStepData_from_keys)

lemma run_Cons: "run ie st (e # es) = run ie (fire ie st e) es"
  by (simp add: run_def)

lemma run_Nil: "run ie st [] = st"
  by (simp add: run_def)

lemma run_append: "run ie st (es @ es') = run ie (run ie st es) es'"
  by (simp add: run_def)

lemma run_keys_mono: "set (obj_keys (formData st)) \<subseteq> set (obj_keys (formData (run ie st es)))"
proof (induction es arbitrary: st)
  case Nil
  then show ?case by (simp add: run_Nil)
next
  case (Cons e es)
  have "set (obj_keys (formData st)) \<subseteq> set (obj_keys (formData (fire ie st e)))"
    by (rule fire_keys_mono)
  also have "\<dots> \<subseteq> set (obj_keys (formData (run ie (fire ie st e) es)))"
    by (rule Cons.IH)
  finally show ?case by (simp add: run_Cons)
qed

lemma fire_keeps_other_steps:
  assumes "\<not> (e = Next \<and> renderedStep st = i)" and "k \<in> set (fields_or_empty i)"
  shows "obj_get (formData (fire ie st e)) k = obj_get (formData st) k"
proof -
  from fire_formData [of ie st e]
  show ?thesis
  proof
    assume "formData (fire ie st e) = formData st"
    then show ?thesis by simp
  next
    assume a: "e = Next \<and> formData (fire ie st e) = formData (saveStepData_from (renderedStep st) st)"
    with assms(1) have "i \<noteq> renderedStep st" by auto
    then have "k \<notin> set (fields_or_empty (renderedStep st))"
      using assms(2) by (rule fields_disjoint)
    then have "obj_get (formData (saveStepData_from (renderedStep st) st)) k = obj_get (formData st) k"
      by (simp add: saveStepData_from_get)
    moreover from a have "formData (fire ie st e) = formData (saveStepData_from (renderedStep st) st)" ..
    ultimately show ?thesis by (simp only:)
  qed
qed

lemma run_keeps_other_steps:
  "avoids_next_at ie i st es \<Longrightarrow> k \<in> set (fields_or_empty i) \<Longrightarrow>
   obj_get (formData (run ie st es)) k = obj_get (formData st) k"
proof (induction es arbitrary: st)
  case Nil
  then show ?case by (simp add: run_Nil)
next
  case (Cons e es)
  from Cons.prems have a: "\<not> (e = Next \<and> renderedStep st = i)"
    and b: "avoids_next_at ie i (fire ie st e) es" by simp_all
  have "obj_get (formData (run ie (fire ie st e) es)) k = obj_get (formData (fire ie st e)) k"
    using b Cons.prems(2) by (rule Cons.IH)
  also have "\<dots> = obj_get (formData st) k"
    using a Cons.prems(2) by (rule fire_keeps_other_steps)
  finally show ?case by (simp add: run_Cons)
qed

text \<open>
  Claim C3. Over every sequence of events (edits, Next, Previous, submissions) the set of
  keys of the accumulated form data only grows; and what step \<open>i\<close> recorded, in particular
  step 0, is read back unchanged after any sequence in which Next is not clicked while the
  page shows step \<open>i\<close>: advancing through the later steps and going back change nothing
  of it.
\<close>

theorem formData_keys_never_removed:
  "set (obj_keys (formData st)) \<subseteq> set (obj_keys (formData (run ie st es))) \<and>
   (avoids_next_at ie i st es \<longrightarrow>
      (\<forall>k\<in>set (fields_or_empty i).
         obj_get (formData (run ie st es)) k = obj_get (formData st) k))"
  using run_keys_mono [of st ie es] run_keeps_other_steps [of ie i st es] by blast

text \<open>
  Claim C6. From an index above 0 \<^verbatim>\<open>prev\<close> sets the index one lower, from index 0 it changes
  nothing; it never changes the accumulated form data and validates nothing: the errors
  are as before and it makes no call to \<^verbatim>\<open>trigger\<close> or \<^verbatim>\<open>handleSubmit\<close>. The same holds of
  the whole Previous event, with the render and the effect that follow it, and of
  \<^verbatim>\<open>prev\<close> called from any render, with the index \<open>c\<close> of its closure deciding whether it
  moves.
\<close>

theorem prev_effect:
  "(0 < currentStep st \<longrightarrow> currentStep (prev st) = currentStep st - 1) \<and>
   (currentStep st \<le> 0 \<longrightarrow> prev st = st) \<and>
   formData (prev st) = formData st \<and> errors (prev st) = errors st \<and>
   filter validation (calls (prev st)) = filter validation (calls st) \<and>
   (renderedStep st = currentStep st \<longrightarrow>
      currentStep (fire ie st Prev) = currentStep (prev st)) \<and>
   currentStep (fire ie st Prev) = currentStep (prev_from (renderedStep st) st) \<and>
   formData (fire ie st Prev) = formData st \<and> errors (fire ie st Prev) = errors st \<and>
   filter validation (calls (fire ie st Prev)) = filter validation (calls st) \<and>
   (0 < c \<longrightarrow> currentStep (prev_from c st) = currentStep st - 1) \<and>
   (c \<le> 0 \<longrightarrow> prev_from c st = st) \<and>
   formData (prev_from c st) = formData st \<and> errors (prev_from c st) = errors st \<and>
   filter validation (calls (prev_from c st)) = filter validation (calls st)"
  by (simp add: prev_def prev_from_def render_frame validation_def)


subsection \<open>The handler claims at concrete inputs\<close>



lemma address_run:
  "currentStep (run sample_email init (personal_inputs @ [Next, Render])) = 1"
  "renderedStep (run sample_email init (personal_inputs @ [Next, Render])) = 1"
  "formData (run sample_email init (personal_inputs @ [Next, Render])) =
     [(''firstName'', Str ''Ada''), (''lastName'', Str ''Lovelace''),
      (''email'', Str ''ada@example.org'')]"
  "formValues (run sample_email init (personal_inputs @ [Next, Render])) ''country'' = Str []"
  by code_simp+


theorem next_handler_examples_witness:
  "(\<exists>st'. next_handler sample_email init = Inr st' \<and>
          currentStep st' = 0 \<and>
          errors st' ''firstName'' = Some (Message ''First name is required'')) \<and>
   (\<exists>st'. next_handler sample_email (setValue ''email'' (Str ''bad'') init) = Inr st' \<and>
          currentStep st' = 0 \<and>
          errors st' ''email'' = Some (Message ''Invalid email address''))"
proof
  have a: "currentStep init = 0 \<and> formValues init ''firstName'' = Str []"
    by (simp add: init_frame init_formValues rendered_inputs_def)
  from next_handler_examples [of init sample_email] a
  show "\<exists>st'. next_handler sample_email init = Inr st' \<and>
          currentStep st' = 0 \<and>
          errors st' ''firstName'' = Some (Message ''First name is required'')"
    by blast
next
  have a: "currentStep (setValue ''email'' (Str ''bad'') init) = 0 \<and>
           formValues (setValue ''email'' (Str ''bad'') init) ''email'' = Str ''bad'' \<and>
           \<not> sample_email ''bad''"
    by (simp add: setValue_def init_frame sample_email_def)
  from next_handler_examples [of "setValue ''email'' (Str ''bad'') init" sample_email] a
  show "\<exists>st'. next_handler sample_email (setValue ''email'' (Str ''bad'') init) = Inr st' \<and>
          currentStep st' = 0 \<and>
          errors st' ''email'' = Some (Message ''Invalid email address'')"
    by blast
qed

theorem prev_effect_witness:
  "currentStep (prev (run sample_email init (personal_inputs @ [Next, Render]))) = 0 \<and>
   currentStep (fire sample_email (run sample_email init (personal_inputs @ [Next, Render])) Prev) = 0 \<and>
   formData (prev (run sample_email init (personal_inputs @ [Next, Render]))) =
     [(''firstName'', Str ''Ada''), (''lastName'', Str ''Lovelace''),
      (''email'', Str ''ada@example.org'')] \<and>
   prev init = init \<and> prev_from 0 init = init"
proof -
  define st where "st = run sample_email init (personal_inputs @ [Next, Render])"
  have p: "0 < currentStep st" and u: "renderedStep st = currentStep st"
    and c1: "currentStep st = 1"
    and d: "formData st = [(''firstName'', Str ''Ada''), (''lastName'', Str ''Lovelace''),
      (''email'', Str ''ada@example.org'')]"
    unfolding st_def by (simp_all add: address_run)
  have q: "currentStep init \<le> 0" by (simp add: init_frame)
  note t = prev_effect [of st sample_email 0]
  from t p have a: "currentStep (prev st) = currentStep st - 1" by blast
  from t u have b: "currentStep (fire sample_email st Prev) = currentStep (prev st)" by blast
  from t have e: "formData (prev st) = formData st" by blast
  from prev_effect [of init sample_email 0] q have i1: "prev init = init" by blast
  from prev_effect [of init sample_email 0] have i2: "prev_from 0 init = init" by blast
  have a': "currentStep (prev st) = 0" using a c1 by simp
  have b': "currentStep (fire sample_email st Prev) = 0" using b a' by (simp only:)
  have e': "formData (prev st) = [(''firstName'', Str ''Ada''), (''lastName'', Str ''Lovelace''),
      (''email'', Str ''ada@example.org'')]" using e d by simp
  show ?thesis unfolding st_def [symmetric] by (intro conjI a' b' e' i1 i2)
qed

theorem formData_keys_never_removed_witness:
  "set (obj_keys (formData (run sample_email init (personal_inputs @ [Next, Render]))))
     \<subseteq> set (obj_keys (formData (run sample_email (run sample_email init (personal_inputs @ [Next, Render]))
                                  (address_inputs @ [Next, Render, Next, Render, Prev, Prev, Prev])))) \<and>
   obj_get (formData (run sample_email (run sample_email init (personal_inputs @ [Next, Render]))
                        (address_inputs @ [Next, Render, Next, Render, Prev, Prev, Prev]))) ''firstName'' = Str ''Ada''"
proof -
  define st where "st = run sample_email init (personal_inputs @ [Next, Render])"
  define es where "es = address_inputs @ [Next, Render, Next, Render, Prev, Prev, Prev]"
  have a: "avoids_next_at sample_email 0 st es" unfolding st_def es_def by code_simp
  have m: "''firstName'' \<in> set (fields_or_empty 0)" by (simp add: fields_or_empty_eq)
  from formData_keys_never_removed [of st sample_email es 0] a m
  have s: "set (obj_keys (formData st)) \<subseteq> set (obj_keys (formData (run sample_email st es)))"
    and g: "obj_get (formData (run sample_email st es)) ''firstName'' = obj_get (formData st) ''firstName''"
    by blast+
  have "obj_get (formData st) ''firstName'' = Str ''Ada''"
    unfolding st_def by (simp add: address_run obj_get_def)
  with g have g': "obj_get (formData (run sample_email st es)) ''firstName'' = Str ''Ada''"
    by (simp only:)
  show ?thesis unfolding st_def [symmetric] es_def [symmetric] by (intro conjI s g')
qed


subsection \<open>Loading recorded values\<close>

text \<open>
  Claim C7, as the code has it. \<^verbatim>\<open>loadStepData\<close> sets the input of every recorded field, a
  field of the step being entered or not, to its recorded value, and leaves the inputs of
  all other fields and the rest of the state as they are; it runs in every render that
  shows a new step index, after the controls of that step are mounted, and so in every
  Previous event that moves the index.
\<close>

theorem loadStepData_sets_recorded_fields:
  "formValues (loadStepData st) f =
     (if f \<in> set (obj_keys (formData st)) then obj_get (formData st) f else formValues st f) \<and>
   formData (loadStepData st) = formData st \<and>
   currentStep (loadStepData st) = currentStep st \<and>
   errors (loadStepData st) = errors st \<and>
   isSubmitted (loadStepData st) = isSubmitted st \<and>
   (currentStep st \<noteq> renderedStep st \<longrightarrow>
      formValues (render st) f =
        (if f \<in> set (obj_keys (formData st)) then obj_get (formData st) f
         else formValues (mount (currentStep st) st) f)) \<and>
   (currentStep (fire ie st Prev) \<noteq> renderedStep st \<longrightarrow>
      formValues (fire ie st Prev) f =
        (if f \<in> set (obj_keys (formData (fire ie st Prev)))
         then obj_get (formData (fire ie st Prev)) f
         else formValues (mount (currentStep (fire ie st Prev)) st) f)) \<and>
   (currentStep (fire ie st Next) \<noteq> renderedStep st \<longrightarrow>
      formValues (fire ie (fire ie st Next) Render) f =
        (if f \<in> set (obj_keys (formData (fire ie st Next)))
         then obj_get (formData (fire ie st Next)) f
         else formValues (mount (currentStep (fire ie st Next)) st) f))"
proof -
  have nx: "formValues (fire ie (fire ie st Next) Render) f =
        (if f \<in> set (obj_keys (formData (fire ie st Next)))
         then obj_get (formData (fire ie st Next)) f
         else formValues (mount (currentStep (fire ie st Next)) st) f)"
    if t: "currentStep (fire ie st Next) \<noteq> renderedStep st"
  proof -
    define s where "s = fire ie st Next"
    have "renderedStep s = renderedStep st \<and> formValues s = formValues st"
    proof (cases "next_from ie (renderedStep st) st")
      case (Inl a)
      then show ?thesis by (simp add: s_def)
    next
      case (Inr st')
      from next_from_formValues [OF Inr] Inr show ?thesis by (simp add: s_def)
    qed
    then have rs: "renderedStep s = renderedStep st" and fv: "formValues s = formValues st"
      by simp_all
    have m: "formValues (mount i s) f = formValues (mount i st) f" for i
      by (simp add: mount_formValues fv)
    from t have "currentStep s \<noteq> renderedStep st" unfolding s_def .
    then have "currentStep s \<noteq> renderedStep s" unfolding rs .
    then have "formValues (render s) f =
        (if f \<in> set (obj_keys (formData s)) then obj_get (formData s) f
         else formValues (mount (currentStep s) st) f)"
      by (simp add: render_formValues m)
    then have "formValues (fire ie s Render) f =
        (if f \<in> set (obj_keys (formData s)) then obj_get (formData s) f
         else formValues (mount (currentStep s) st) f)" by simp
    then show ?thesis unfolding s_def .
  qed
  have "formValues (fire ie st Prev) f =
        (if f \<in> set (obj_keys (formData (fire ie st Prev)))
         then obj_get (formData (fire ie st Prev)) f
         else formValues (mount (currentStep (fire ie st Prev)) st) f)"
    if "currentStep (fire ie st Prev) \<noteq> renderedStep st"
  proof -
    let ?p = "prev_from (renderedStep st) st"
    from that have "currentStep ?p \<noteq> renderedStep ?p"
      by (simp add: render_frame prev_from_frame)
    then have "formValues (render ?p) f =
        (if f \<in> set (obj_keys (formData ?p)) then obj_get (formData ?p) f
         else formValues (mount (currentStep ?p) ?p) f)"
      by (simp add: render_formValues)
    moreover have "formValues (mount i ?p) f = formValues (mount i st) f" for i
      by (simp add: mount_formValues prev_from_frame)
    ultimately show ?thesis
      by (simp add: render_frame prev_from_frame)
  qed
  with nx show ?thesis
    by (simp add: loadStepData_eq render_formValues del: fire.simps)
qed

theorem loadStepData_sets_recorded_fields_witness:
  "formValues (render (run sample_email init (personal_inputs @ [Next]))) ''firstName'' = Str ''Ada'' \<and>
   formValues (render (run sample_email init (personal_inputs @ [Next]))) ''country'' = Str [] \<and>
   formValues (fire sample_email (run sample_email init (personal_inputs @ [Next, Render])) Prev)
      ''email'' = Str ''ada@example.org''"
proof -
  define st where "st = run sample_email init (personal_inputs @ [Next])"
  define st2 where "st2 = run sample_email init (personal_inputs @ [Next, Render])"
  have c: "currentStep st \<noteq> renderedStep st" unfolding st_def by code_simp
  have d: "formData st = [(''firstName'', Str ''Ada''), (''lastName'', Str ''Lovelace''),
              (''email'', Str ''ada@example.org'')]" unfolding st_def by code_simp
  have c1: "currentStep st = 1" unfolding st_def by code_simp
  have u: "formValues st ''country'' = Undefined" unfolding st_def by code_simp
  have c2: "currentStep (fire sample_email st2 Prev) \<noteq> renderedStep st2"
    unfolding st2_def by code_simp
  have d2: "formData (fire sample_email st2 Prev) =
             [(''firstName'', Str ''Ada''), (''lastName'', Str ''Lovelace''),
              (''email'', Str ''ada@example.org'')]" unfolding st2_def by code_simp
  from loadStepData_sets_recorded_fields [of st _ sample_email] c
  have g: "formValues (render st) k =
        (if k \<in> set (obj_keys (formData st)) then obj_get (formData st) k
         else formValues (mount (currentStep st) st) k)" for k
    by blast
  from loadStepData_sets_recorded_fields [of st2 _ sample_email] c2
  have h: "formValues (fire sample_email st2 Prev) k =
        (if k \<in> set (obj_keys (formData (fire sample_email st2 Prev)))
         then obj_get (formData (fire sample_email st2 Prev)) k
         else formValues (mount (currentStep (fire sample_email st2 Prev)) st2) k)" for k
    by blast
  have a: "formValues (render st) ''firstName'' = Str ''Ada''"
    unfolding g [of "''firstName''"] d by (simp add: obj_keys_def obj_get_def)
  have b: "formValues (render st) ''country'' = Str []"
    unfolding g [of "''country''"] d c1
    by (simp add: obj_keys_def mount_formValues u rendered_inputs_def)
  have e: "formValues (fire sample_email st2 Prev) ''email'' = Str ''ada@example.org''"
    unfolding h [of "''email''"] d2 by (simp add: obj_keys_def obj_get_def)
  show ?thesis unfolding st_def [symmetric] st2_def [symmetric] by (intro conjI a b e)
qed

text \<open>
  Claim C7 as stated fails: after the address step has been recorded, an edit of
  \<^verbatim>\<open>country\<close> followed by Previous enters step 0, and \<^verbatim>\<open>loadStepData\<close> then puts the
  recorded value back into \<^verbatim>\<open>country\<close>, a field step 0 does not own. Every event of the
  run is timely.
\<close>

theorem loadStepData_other_step_counterexample:
  "timely_run sample_email init
      (personal_inputs @ [Next, Render] @ address_inputs @
       [Next, Render, Prev, Input ''country'' (Str ''France''), Prev]) \<and>
   currentStep (fire sample_email (run sample_email init
      (personal_inputs @ [Next, Render] @ address_inputs @
       [Next, Render, Prev, Input ''country'' (Str ''France'')])) Prev) = 0 \<and>
   ''country'' \<notin> set (fields_or_empty 0) \<and>
   formValues (run sample_email init
      (personal_inputs @ [Next, Render] @ address_inputs @
       [Next, Render, Prev, Input ''country'' (Str ''France'')]))
      ''country'' = Str ''France'' \<and>
   formValues (fire sample_email (run sample_email init
      (personal_inputs @ [Next, Render] @ address_inputs @
       [Next, Render, Prev, Input ''country'' (Str ''France'')])) Prev)
      ''country'' = Str ''UK''"
  by code_simp


subsection \<open>Undefined values and untouched checkboxes\<close>

lemma update_entries:
  "(a, b) \<in> set (AList.update k v al) \<Longrightarrow> (a, b) = (k, v) \<or> (a, b) \<in> set al"
  by (induction al) (auto split: if_splits)

lemma spread_entries:
  "(a, b) \<in> set (spread p m) \<Longrightarrow> (a, b) \<in> set p \<or> (a, b) \<in> set m"
  unfolding spread_def
proof (induction m arbitrary: p)
  case Nil
  then show ?case by simp
next
  case (Cons x m)
  obtain k v where x: "x = (k, v)" by (cases x)
  from Cons.prems have "(a, b) \<in> set (fold (\<lambda>(k, v). AList.update k v) m (AList.update k v p))"
    by (simp add: x)
  then have "(a, b) \<in> set (AList.update k v p) \<or> (a, b) \<in> set m"
    by (rule Cons.IH)
  then show ?case using update_entries [of a b k v p] by (auto simp: x)
qed

lemma stepData_entries:
  "(a, b) \<in> set (fold (\<lambda>field acc. if vals field \<noteq> Undefined
                                     then AList.update field (vals field) acc else acc) fs acc) \<Longrightarrow>
   (a, b) \<in> set acc \<or> b \<noteq> Undefined"
proof (induction fs arbitrary: acc)
  case Nil
  then show ?case by simp
next
  case (Cons x fs)
  show ?case
  proof (cases "vals x \<noteq> Undefined")
    case True
    with Cons.prems have "(a, b) \<in> set (AList.update x (vals x) acc) \<or> b \<noteq> Undefined"
      by (intro Cons.IH) simp
    then show ?thesis using True update_entries [of a b x "vals x" acc] by auto
  next
    case False
    with Cons.prems show ?thesis by (intro Cons.IH) simp
  qed
qed

lemma saveStepData_from_no_undefined:
  assumes "\<forall>k. (k, Undefined) \<notin> set (formData st)"
  shows "(k, Undefined) \<notin> set (formData (saveStepData_from c st))"
proof
  assume "(k, Undefined) \<in> set (formData (saveStepData_from c st))"
  then have "(k, Undefined) \<in> set (formData st) \<or>
     (k, Undefined) \<in> set (fold (\<lambda>field acc. if formValues st field \<noteq> Undefined
                                     then AList.update field (formValues st field) acc else acc)
                              (fields_or_empty c) [])"
    by (simp add: saveStepData_from_def Let_def spread_entries)
  then show False
    using assms stepData_entries [of k Undefined "formValues st" "fields_or_empty c" "[]"]
    by auto
qed

lemma fire_no_undefined:
  assumes "\<forall>k. (k, Undefined) \<notin> set (formData st)"
  shows "\<forall>k. (k, Undefined) \<notin> set (formData (fire ie st e))"
  using fire_formData [of ie st e] assms saveStepData_from_no_undefined [OF assms]
  by auto

lemma reachable_no_undefined:
  "reachable ie st \<Longrightarrow> \<forall>k. (k, Undefined) \<notin> set (formData st)"
proof (induction rule: reachable.induct)
  case reachable_init
  then show ?case by (simp add: init_frame)
next
  case (reachable_fire st e)
  from reachable_fire.IH show ?case by (rule fire_no_undefined)
qed

lemma reachable_run: "reachable ie st \<Longrightarrow> reachable ie (run ie st es)"
proof (induction es arbitrary: st)
  case Nil
  then show ?case by (simp add: run_Nil)
next
  case (Cons e es)
  from Cons.prems have "reachable ie (fire ie st e)" by (rule reachable_fire)
  then show ?case by (simp add: run_Cons Cons.IH)
qed

lemma absent_key_get: "f \<notin> set (obj_keys ob) \<Longrightarrow> obj_get ob f = Undefined"
proof -
  assume "f \<notin> set (obj_keys ob)"
  then have "map_of ob f = None" by (simp add: obj_keys_def map_of_eq_None_iff)
  then show ?thesis by (simp add: obj_get_def)
qed

lemma checkbox_control:
  "f \<in> set (fields_or_empty 2) \<Longrightarrow> map_of (rendered_inputs i) f = Some c \<Longrightarrow> c = Checkbox"
  by (auto simp: rendered_inputs_def fields_or_empty_eq split: if_splits)

lemma checkbox_mount:
  assumes "f \<in> set (fields_or_empty 2)"
    and "formValues st f = Undefined \<or> formValues st f = Bool False"
  shows "formValues (mount i st) f = Undefined \<or> formValues (mount i st) f = Bool False"
proof (cases "map_of (rendered_inputs i) f")
  case None
  with assms(2) show ?thesis by (auto simp: mount_formValues)
next
  case (Some c)
  with checkbox_control [OF assms(1) Some] assms(2) show ?thesis
    by (auto simp: mount_formValues)
qed

text \<open>What an optional boolean that no edit has set looks like: its input is undefined or false, and a recorded value is false.\<close>

lemma render_untouched:
  assumes f: "f \<in> set (fields_or_empty 2)"
    and v: "formValues st f = Undefined \<or> formValues st f = Bool False"
    and d: "f \<in> set (obj_keys (formData st)) \<longrightarrow> obj_get (formData st) f = Bool False"
  shows "formValues (render st) f = Undefined \<or> formValues (render st) f = Bool False"
  using checkbox_mount [OF f v, of "currentStep st"] v d
  by (auto simp: render_formValues)

lemma fire_untouched:
  assumes f: "f \<in> set (fields_or_empty 2)" and n: "\<not> sets_field f e"
    and v: "formValues st f = Undefined \<or> formValues st f = Bool False"
    and d: "f \<in> set (obj_keys (formData st)) \<longrightarrow> obj_get (formData st) f = Bool False"
  shows "(formValues (fire ie st e) f = Undefined \<or> formValues (fire ie st e) f = Bool False) \<and>
         (f \<in> set (obj_keys (formData (fire ie st e))) \<longrightarrow>
            obj_get (formData (fire ie st e)) f = Bool False)"
proof -
  have k: "f \<in> set (obj_keys (formData (fire ie st e))) \<longrightarrow>
            obj_get (formData (fire ie st e)) f = Bool False"
    using fire_formData [of ie st e] v d
    by (auto simp: saveStepData_from_keys saveStepData_from_get)
  have "formValues (fire ie st e) f = Undefined \<or> formValues (fire ie st e) f = Bool False"
  proof (cases e)
    case (Input g w)
    with n v show ?thesis by (simp add: setValue_def)
  next
    case Next
    show ?thesis
    proof (cases "next_from ie (renderedStep st) st")
      case (Inl a)
      with Next v show ?thesis by simp
    next
      case (Inr st')
      with Next v show ?thesis by (simp add: next_from_formValues [OF Inr])
    qed
  next
    case Prev
    have "formValues (render (prev_from (renderedStep st) st)) f = Undefined \<or>
          formValues (render (prev_from (renderedStep st) st)) f = Bool False"
      using f v d by (intro render_untouched) (simp_all add: prev_from_frame)
    with Prev show ?thesis by simp
  next
    case Submit
    with v show ?thesis by (simp add: handleSubmit_frame)
  next
    case Render
    from render_untouched [OF f v d] Render show ?thesis by simp
  qed
  with k show ?thesis by simp
qed

lemma run_untouched:
  "f \<in> set (fields_or_empty 2) \<Longrightarrow> \<not> list_ex (sets_field f) es \<Longrightarrow>
   formValues st f = Undefined \<or> formValues st f = Bool False \<Longrightarrow>
   f \<in> set (obj_keys (formData st)) \<longrightarrow> obj_get (formData st) f = Bool False \<Longrightarrow>
   (formValues (run ie st es) f = Undefined \<or> formValues (run ie st es) f = Bool False) \<and>
   (f \<in> set (obj_keys (formData (run ie st es))) \<longrightarrow>
      obj_get (formData (run ie st es)) f = Bool False)"
proof (induction es arbitrary: st)
  case Nil
  then show ?case by (simp add: run_Nil)
next
  case (Cons e es)
  from Cons.prems(2) have a: "\<not> sets_field f e" and b: "\<not> list_ex (sets_field f) es"
    by simp_all
  from fire_untouched [OF Cons.prems(1) a Cons.prems(3,4), of ie]
  have "formValues (fire ie st e) f = Undefined \<or> formValues (fire ie st e) f = Bool False"
    and "f \<in> set (obj_keys (formData (fire ie st e))) \<longrightarrow>
            obj_get (formData (fire ie st e)) f = Bool False" by simp_all
  from Cons.IH [OF Cons.prems(1) b this] show ?case unfolding run_Cons .
qed

text \<open>
  Claim C10, as the code has it. \<^verbatim>\<open>saveStepData\<close> skips a field whose current value is
  \<^verbatim>\<open>undefined\<close> and records every other field of its step, so in no reachable state does
  the accumulated form data map a key to \<^verbatim>\<open>undefined\<close>. An optional boolean passes
  validation while it is \<^verbatim>\<open>undefined\<close>, but its checkbox is mounted with the value
  \<^verbatim>\<open>false\<close> when the preferences step is shown. So a checkbox that no edit has set reads
  \<^verbatim>\<open>undefined\<close> or \<^verbatim>\<open>false\<close>; once recorded it is recorded as \<^verbatim>\<open>false\<close> and the review
  shows "No", and only while it has no key does the review show "Not provided".
\<close>

theorem formData_never_undefined:
  "(reachable ie st \<longrightarrow> (\<forall>k. (k, Undefined) \<notin> set (formData st))) \<and>
   (formValues st f = Undefined \<longrightarrow>
      obj_get (formData (saveStepData_from c st)) f = obj_get (formData st) f \<and>
      (f \<in> set (obj_keys (formData (saveStepData_from c st))) \<longleftrightarrow>
       f \<in> set (obj_keys (formData st)))) \<and>
   (f \<in> set (fields_or_empty c) \<and> formValues st f \<noteq> Undefined \<longrightarrow>
      obj_get (formData (saveStepData_from c st)) f = formValues st f) \<and>
   (map_of FormDataSchema f = Some ZBoolean_optional \<and> formValues st f = Undefined \<longrightarrow>
      field_error ie (formValues st) f = None) \<and>
   (f \<in> set (fields_or_empty 2) \<and> formValues st f = Undefined \<longrightarrow>
      formValues (mount 2 st) f = Bool False) \<and>
   (f \<in> set (fields_or_empty 2) \<and> \<not> list_ex (sets_field f) es \<longrightarrow>
      (formValues (run ie init es) f = Undefined \<or> formValues (run ie init es) f = Bool False) \<and>
      review (run ie init es) f =
        (if f \<in> set (obj_keys (formData (run ie init es))) then ''No'' else ''Not provided''))"
proof (intro conjI impI)
  assume "reachable ie st"
  then show "\<forall>k. (k, Undefined) \<notin> set (formData st)" by (rule reachable_no_undefined)
next
  assume "formValues st f = Undefined"
  then show "obj_get (formData (saveStepData_from c st)) f = obj_get (formData st) f"
    by (simp add: saveStepData_from_get)
next
  assume "formValues st f = Undefined"
  then show "f \<in> set (obj_keys (formData (saveStepData_from c st))) \<longleftrightarrow>
             f \<in> set (obj_keys (formData st))"
    by (auto simp: saveStepData_from_keys)
next
  assume "f \<in> set (fields_or_empty c) \<and> formValues st f \<noteq> Undefined"
  then show "obj_get (formData (saveStepData_from c st)) f = formValues st f"
    by (simp add: saveStepData_from_get)
next
  assume "map_of FormDataSchema f = Some ZBoolean_optional \<and> formValues st f = Undefined"
  then show "field_error ie (formValues st) f = None" by (simp add: field_error_def)
next
  assume "f \<in> set (fields_or_empty 2) \<and> formValues st f = Undefined"
  then show "formValues (mount 2 st) f = Bool False"
    by (auto simp: mount_formValues rendered_inputs_def fields_or_empty_eq)
next
  assume a: "f \<in> set (fields_or_empty 2) \<and> \<not> list_ex (sets_field f) es"
  then have f: "f \<in> set (fields_or_empty 2)" and n: "\<not> list_ex (sets_field f) es"
    by simp_all
  have "map_of (rendered_inputs 0) f = None"
    using f by (auto simp: rendered_inputs_def fields_or_empty_eq)
  then have i: "formValues init f = Undefined \<or> formValues init f = Bool False"
    by (simp add: init_formValues)
  have j: "f \<in> set (obj_keys (formData init)) \<longrightarrow> obj_get (formData init) f = Bool False"
    by (simp add: init_frame obj_keys_def)
  from run_untouched [OF f n i j, of ie]
  have v: "formValues (run ie init es) f = Undefined \<or> formValues (run ie init es) f = Bool False"
    and k: "f \<in> set (obj_keys (formData (run ie init es))) \<longrightarrow>
      obj_get (formData (run ie init es)) f = Bool False" by simp_all
  from v show "formValues (run ie init es) f = Undefined \<or>
               formValues (run ie init es) f = Bool False" .
  show "review (run ie init es) f =
        (if f \<in> set (obj_keys (formData (run ie init es))) then ''No'' else ''Not provided'')"
  proof (cases "f \<in> set (obj_keys (formData (run ie init es)))")
    case True
    with k show ?thesis by (simp add: review_def formatValue_def)
  next
    case False
    from absent_key_get [OF False] False show ?thesis
      by (simp add: review_def formatValue_def)
  qed
qed

theorem formData_never_undefined_witness:
  "(''enableNotification'', Undefined) \<notin> set (formData (run sample_email init
      (personal_inputs @ [Next, Render] @ address_inputs @ [Next, Render, Next, Render]))) \<and>
   formValues (mount 2 init) ''enableNotification'' = Bool False \<and>
   field_error sample_email (formValues init) ''enableNotification'' = None \<and>
   review (run sample_email init
      (personal_inputs @ [Next, Render] @ address_inputs @ [Next, Render, Next, Render]))
      ''enableNotification'' = ''No'' \<and>
   review (run sample_email init (personal_inputs @ [Next, Render] @ address_inputs))
      ''enableNotification'' = ''Not provided''"
proof -
  define es where "es = personal_inputs @ [Next, Render] @ address_inputs @ [Next, Render, Next, Render]"
  define es' where "es' = personal_inputs @ [Next, Render] @ address_inputs"
  define f where "f = ''enableNotification''"
  have r: "reachable sample_email (run sample_email init es)"
    by (rule reachable_run [OF reachable_init])
  have m: "f \<in> set (fields_or_empty 2)" unfolding f_def by (simp add: fields_or_empty_eq)
  have u: "formValues init f = Undefined"
    unfolding f_def by (simp add: init_formValues rendered_inputs_def)
  have b: "map_of FormDataSchema f = Some ZBoolean_optional" unfolding f_def
    by (simp add: FormDataSchema_def)
  have n: "\<not> list_ex (sets_field f) es" unfolding f_def es_def
    by (simp add: personal_inputs_def address_inputs_def)
  have n': "\<not> list_ex (sets_field f) es'" unfolding f_def es'_def
    by (simp add: personal_inputs_def address_inputs_def)
  have k: "f \<in> set (obj_keys (formData (run sample_email init es)))"
    unfolding f_def es_def by code_simp
  have k': "f \<notin> set (obj_keys (formData (run sample_email init es')))"
    unfolding f_def es'_def by code_simp
  note t = formData_never_undefined [of sample_email "run sample_email init es" f 2 es]
  note t' = formData_never_undefined [of sample_email init f 2 es']
  from t r have c1: "(f, Undefined) \<notin> set (formData (run sample_email init es))" by blast
  from t' m u have c2: "formValues (mount 2 init) f = Bool False" by blast
  from t' b u have c3: "field_error sample_email (formValues init) f = None" by blast
  from t m n have "review (run sample_email init es) f =
        (if f \<in> set (obj_keys (formData (run sample_email init es))) then ''No'' else ''Not provided'')"
    by blast
  with k have c4: "review (run sample_email init es) f = ''No''" by simp
  from t' m n' have "review (run sample_email init es') f =
        (if f \<in> set (obj_keys (formData (run sample_email init es'))) then ''No'' else ''Not provided'')"
    by blast
  with k' have c5: "review (run sample_email init es') f = ''Not provided''" by simp
  show ?thesis
    unfolding es_def [symmetric] es'_def [symmetric] f_def [symmetric]
    by (intro conjI c1 c2 c3 c4 c5)
qed

text \<open>
  Claim C10 as stated fails in its second half: in a run of timely events through all the
  steps in which no edit touches \<^verbatim>\<open>joinNewsletter\<close>, the checkbox is mounted as \<^verbatim>\<open>false\<close>,
  completing the preferences step records the key with that value, and the review shows
  "No" instead of rendering the field from its absence.
\<close>

theorem untouched_checkbox_counterexample:
  "timely_run sample_email init
      (personal_inputs @ [Next, Render] @ address_inputs @ [Next, Render, Next, Render]) \<and>
   \<not> list_ex (sets_field ''joinNewsletter'')
      (personal_inputs @ [Next, Render] @ address_inputs @ [Next, Render, Next, Render]) \<and>
   ''joinNewsletter'' \<in> set (obj_keys (formData (run sample_email init
      (personal_inputs @ [Next, Render] @ address_inputs @ [Next, Render, Next, Render])))) \<and>
   obj_get (formData (run sample_email init
      (personal_inputs @ [Next, Render] @ address_inputs @ [Next, Render, Next, Render])))
      ''joinNewsletter'' = Bool False \<and>
   review (run sample_email init
      (personal_inputs @ [Next, Render] @ address_inputs @ [Next, Render, Next, Render]))
      ''joinNewsletter'' = ''No''"
  by code_simp


subsection \<open>States reached by timely events\<close>

lemma next_from_fail:
  assumes "in_range c"
    and "\<not> fst (trigger ie (step_fields (steps ! nat c)) st)"
  shows "\<exists>st'. next_from ie c st = Inr st' \<and> currentStep st' = currentStep st \<and>
           formData st' = formData st \<and> formValues st' = formValues st \<and>
           isSubmitted st' = isSubmitted st \<and> renderedStep st' = renderedStep st \<and>
           calls st' = calls st @ [Trigger (step_fields (steps ! nat c))]"
  using assms by (simp add: next_from_unfold Let_def trigger_frame trigger_calls)

lemma next_from_last:
  assumes "c = 3"
    and "fst (trigger ie (step_fields (steps ! nat c)) st)"
  shows "\<exists>st'. next_from ie c st = Inr st' \<and> currentStep st' = currentStep st \<and>
           formData st' = formData (saveStepData_from c st) \<and> formValues st' = formValues st \<and>
           isSubmitted st' = isSubmitted st \<and> renderedStep st' = renderedStep st \<and>
           calls st' = calls st @ [Trigger (step_fields (steps ! nat c))]"
proof -
  from assms(1) have r: "in_range c" by (simp add: in_range_iff)
  show ?thesis
    unfolding next_from_unfold [OF r]
    using assms
    by (simp add: Let_def trigger_frame trigger_calls
        saveStepData_from_other saveStepData_from_trigger)
qed

lemma next_from_move:
  assumes "c = 0 \<or> c = 1"
    and "fst (trigger ie (step_fields (steps ! nat c)) st)"
  shows "\<exists>st'. next_from ie c st = Inr st' \<and> currentStep st' = currentStep st + 1 \<and>
           formData st' = formData (saveStepData_from c st) \<and> formValues st' = formValues st \<and>
           isSubmitted st' = isSubmitted st \<and> renderedStep st' = renderedStep st \<and>
           calls st' = calls st @ [Trigger (step_fields (steps ! nat c)), SetCurrentStep]"
proof -
  from assms(1) have r: "in_range c" by (auto simp: in_range_iff)
  show ?thesis
    unfolding next_from_unfold [OF r]
    using assms
    by (auto simp: Let_def trigger_frame trigger_calls
        saveStepData_from_other saveStepData_from_trigger)
qed

lemma next_from_submit:
  assumes "c = 2"
    and "fst (trigger ie (step_fields (steps ! nat c)) st)"
  shows "\<exists>st'. next_from ie c st = Inr st' \<and> currentStep st' = currentStep st + 1 \<and>
           formData st' = formData (saveStepData_from c st) \<and> formValues st' = formValues st \<and>
           isSubmitted st' =
             (isSubmitted st \<or> (\<forall>n. field_error ie (formValues st) n = None)) \<and>
           renderedStep st' = renderedStep st \<and>
           calls st' = calls st @ [Trigger (step_fields (steps ! nat c)), HandleSubmit] @
                       (if \<forall>n. field_error ie (formValues st) n = None then [ProcessForm] else []) @
                       [SetCurrentStep]"
proof -
  from assms(1) have r: "in_range c" by (simp add: in_range_iff)
  show ?thesis
    unfolding next_from_unfold [OF r]
    using assms
    by (auto simp: Let_def trigger_frame trigger_calls
        saveStepData_from_other saveStepData_from_trigger handleSubmit_eq)
qed

lemma next_from_isSubmitted_mono:
  assumes "next_from ie c st = Inr st'" and "isSubmitted st"
  shows "isSubmitted st'"
proof -
  from assms(1) have r: "in_range c" by (rule next_from_in_range)
  show ?thesis
    using assms
    by (auto simp: next_from_unfold [OF r] Let_def trigger_frame handleSubmit_eq
        saveStepData_from_other split: if_splits)
qed

lemma fire_isSubmitted_mono: "isSubmitted st \<Longrightarrow> isSubmitted (fire ie st e)"
proof (cases e)
  case (Input g v)
  assume "isSubmitted st"
  then show ?thesis using Input by (simp add: setValue_def)
next
  case Next
  assume s: "isSubmitted st"
  show ?thesis
  proof (cases "next_from ie (renderedStep st) st")
    case (Inl a)
    then show ?thesis using Next s by simp
  next
    case (Inr st')
    from next_from_isSubmitted_mono [OF Inr s] show ?thesis using Next Inr by simp
  qed
next
  case Prev
  assume "isSubmitted st"
  then show ?thesis using Prev by (simp add: render_frame prev_from_frame)
next
  case Submit
  assume "isSubmitted st"
  then show ?thesis using Submit by (simp add: handleSubmit_eq)
next
  case Render
  assume "isSubmitted st"
  then show ?thesis using Render by (simp add: render_frame)
qed

lemma ui_inv_cong:
  assumes "currentStep a = currentStep b" "formData a = formData b"
    "formValues a = formValues b" "isSubmitted a = isSubmitted b"
  shows "ui_inv ie a = ui_inv ie b"
  by (simp add: ui_inv_def assms)

lemma ui_inv_init: "ui_inv ie init"
  by (auto simp: ui_inv_def init_frame in_range_iff obj_keys_def length_steps)

lemma offered_Input_field:
  "offered st (Input g v) \<Longrightarrow> g \<in> set (fields_or_empty (renderedStep st))"
proof -
  assume "offered st (Input g v)"
  then have "g \<in> fst ` set (rendered_inputs (renderedStep st))"
    by (force simp: list_ex_iff)
  then show ?thesis by (simp add: rendered_names [symmetric])
qed

lemma ui_inv_Input:
  assumes "ui_inv ie st" and "timely st (Input g v)"
  shows "ui_inv ie (setValue g v st)"
proof -
  from assms(2) have o: "offered st (Input g v)" and u: "renderedStep st = currentStep st"
    unfolding timely_def by blast+
  from o u have g: "g \<in> set (fields_or_empty (currentStep st))"
    using offered_Input_field [of st g v] by simp
  have "field_error ie (formValues (setValue g v st)) f = None"
    if "0 \<le> j \<and> j < currentStep st \<and> f \<in> set (fields_or_empty j)" for j f
  proof -
    from that have "j \<noteq> currentStep st" and m: "f \<in> set (fields_or_empty j)" by simp_all
    then have "f \<notin> set (fields_or_empty (currentStep st))" by (rule fields_disjoint)
    with g have "f \<noteq> g" by auto
    then have "field_error ie (formValues (setValue g v st)) f = field_error ie (formValues st) f"
      by (intro field_error_cong) (simp add: setValue_def)
    also have "\<dots> = None" using assms(1) that by (simp add: ui_inv_def)
    finally show ?thesis .
  qed
  then show ?thesis
    using assms(1) by (simp add: ui_inv_def setValue_def)
qed

lemma ui_inv_loaded:
  assumes r: "in_range (currentStep s)"
    and d: "\<forall>k \<in> set (obj_keys (formData s)). field_error ie (obj_get (formData s)) k = None"
    and e: "\<forall>j f. 0 \<le> j \<and> j < currentStep s \<and> f \<in> set (fields_or_empty j)
               \<longrightarrow> field_error ie vals f = None"
    and l: "\<forall>f. formValues s f =
               (if f \<in> set (obj_keys (formData s)) then obj_get (formData s) f else vals f)"
    and b: "currentStep s = int (length steps) - 1 \<longrightarrow> isSubmitted s"
  shows "ui_inv ie s"
proof -
  have "field_error ie (formValues s) f = None"
    if t: "0 \<le> j \<and> j < currentStep s \<and> f \<in> set (fields_or_empty j)" for j f
  proof (cases "f \<in> set (obj_keys (formData s))")
    case True
    then have "formValues s f = obj_get (formData s) f" using l by simp
    then have "field_error ie (formValues s) f = field_error ie (obj_get (formData s)) f"
      by (rule field_error_cong)
    with d True show ?thesis by simp
  next
    case False
    then have "formValues s f = vals f" using l by simp
    then have "field_error ie (formValues s) f = field_error ie vals f"
      by (rule field_error_cong)
    with e t show ?thesis by simp
  qed
  with r d b show ?thesis by (simp add: ui_inv_def)
qed

lemma saveStepData_valid:
  assumes d: "\<forall>k \<in> set (obj_keys (formData st)). field_error ie (obj_get (formData st)) k = None"
    and p: "\<forall>f\<in>set (fields_or_empty c). field_error ie (formValues st) f = None"
  shows "\<forall>k \<in> set (obj_keys (formData (saveStepData_from c st))).
           field_error ie (obj_get (formData (saveStepData_from c st))) k = None"
proof
  fix k
  assume k: "k \<in> set (obj_keys (formData (saveStepData_from c st)))"
  show "field_error ie (obj_get (formData (saveStepData_from c st))) k = None"
  proof (cases "k \<in> set (fields_or_empty c) \<and> formValues st k \<noteq> Undefined")
    case True
    then have "obj_get (formData (saveStepData_from c st)) k = formValues st k"
      by (simp add: saveStepData_from_get)
    then have "field_error ie (obj_get (formData (saveStepData_from c st))) k =
               field_error ie (formValues st) k"
      by (rule field_error_cong)
    with p True show ?thesis by simp
  next
    case False
    then have g: "obj_get (formData (saveStepData_from c st)) k = obj_get (formData st) k"
      by (auto simp: saveStepData_from_get)
    from False k have "k \<in> set (obj_keys (formData st))"
      by (auto simp: saveStepData_from_keys)
    with d have "field_error ie (obj_get (formData st)) k = None" by simp
    moreover have "field_error ie (obj_get (formData (saveStepData_from c st))) k =
                   field_error ie (obj_get (formData st)) k"
      using g by (rule field_error_cong)
    ultimately show ?thesis by simp
  qed
qed

lemma all_fields_valid:
  assumes "\<forall>j f. 0 \<le> j \<and> j < 3 \<and> f \<in> set (fields_or_empty j) \<longrightarrow> field_error ie vals f = None"
  shows "field_error ie vals n = None"
proof (cases "map_of FormDataSchema n")
  case None
  then show ?thesis by (simp add: field_error_def)
next
  case (Some ty)
  from schema_cover [OF Some]
  have "n \<in> set (fields_or_empty 0) \<or> n \<in> set (fields_or_empty 1) \<or> n \<in> set (fields_or_empty 2)"
    by simp
  then show ?thesis
  proof (elim disjE)
    assume "n \<in> set (fields_or_empty 0)"
    with assms [rule_format, of 0 n] show ?thesis by simp
  next
    assume "n \<in> set (fields_or_empty 1)"
    with assms [rule_format, of 1 n] show ?thesis by simp
  next
    assume "n \<in> set (fields_or_empty 2)"
    with assms [rule_format, of 2 n] show ?thesis by simp
  qed
qed

lemma ui_inv_parts:
  assumes "ui_inv ie st"
  shows "in_range (currentStep st)"
    and "\<forall>k \<in> set (obj_keys (formData st)). field_error ie (obj_get (formData st)) k = None"
    and "\<And>j f. 0 \<le> j \<Longrightarrow> j < currentStep st \<Longrightarrow> f \<in> set (fields_or_empty j) \<Longrightarrow>
           field_error ie (formValues st) f = None"
    and "currentStep st = 3 \<Longrightarrow> isSubmitted st"
  using assms by (simp_all add: ui_inv_def length_steps)

text \<open>On the step before the review, a successful check of that step's fields means the whole schema validates.\<close>

lemma ui_inv_pass_all_valid:
  assumes i: "ui_inv ie st" and c: "currentStep st = 2"
    and p: "\<forall>f\<in>set (fields_or_empty (currentStep st)). field_error ie (formValues st) f = None"
  shows "\<forall>n. field_error ie (formValues st) n = None"
proof
  fix n
  have "field_error ie (formValues st) f = None"
    if "0 \<le> j \<and> j < 3 \<and> f \<in> set (fields_or_empty j)" for j f
  proof (cases "j = 2")
    case True
    with that p c show ?thesis by simp
  next
    case False
    with that c have "0 \<le> j" "j < currentStep st" "f \<in> set (fields_or_empty j)" by simp_all
    then show ?thesis by (rule ui_inv_parts(3) [OF i])
  qed
  then show "field_error ie (formValues st) n = None"
    by (intro all_fields_valid) blast
qed

lemma ui_inv_Next:
  assumes i: "ui_inv ie st" and o: "timely st Next"
  shows "ui_inv ie (fire ie st Next)"
proof -
  define c where "c = renderedStep st"
  let ?names = "step_fields (steps ! nat c)"
  from o have u: "c = currentStep st" and n3: "c \<noteq> 3"
    unfolding timely_def c_def by (simp_all add: length_steps)
  note r = ui_inv_parts(1) [OF i, folded u]
  have f: "fire ie st Next = (case next_from ie c st of Inl e \<Rightarrow> st | Inr st' \<Rightarrow> st')"
    by (simp add: c_def)
  show ?thesis
  proof (cases "fst (trigger ie ?names st)")
    case False
    from next_from_fail [OF r False] obtain st' where
      n: "next_from ie c st = Inr st'" and c': "currentStep st' = currentStep st"
      and d: "formData st' = formData st" and v: "formValues st' = formValues st"
      and s: "isSubmitted st' = isSubmitted st" by blast
    have "fire ie st Next = st'" unfolding f using n by simp
    moreover have "ui_inv ie st' = ui_inv ie st" using c' d v s by (rule ui_inv_cong)
    ultimately show ?thesis using i by simp
  next
    case True
    with r n3 have p: "\<forall>f\<in>set (fields_or_empty c). field_error ie (formValues st) f = None"
      by (simp add: trigger_pass_iff)
    from r n3 have "c = 0 \<or> c = 1 \<or> c = 2"
      by (cases rule: in_range_cases) simp_all
    then have "\<exists>st'. next_from ie c st = Inr st' \<and> currentStep st' = currentStep st + 1 \<and>
           formData st' = formData (saveStepData_from c st) \<and> formValues st' = formValues st \<and>
           (c = 2 \<longrightarrow> isSubmitted st' =
              (isSubmitted st \<or> (\<forall>n. field_error ie (formValues st) n = None)))"
      using next_from_move [OF _ True] next_from_submit [OF _ True] by fastforce
    then obtain st' where
      n: "next_from ie c st = Inr st'" and cs: "currentStep st' = currentStep st + 1"
      and ds: "formData st' = formData (saveStepData_from c st)"
      and vs: "formValues st' = formValues st"
      and s: "c = 2 \<longrightarrow> isSubmitted st' =
              (isSubmitted st \<or> (\<forall>n. field_error ie (formValues st) n = None))" by blast
    have fs: "fire ie st Next = st'" unfolding f using n by simp
    have "in_range (currentStep st')"
      using r n3 u by (simp add: cs in_range_iff)
    moreover have "\<forall>k \<in> set (obj_keys (formData st')). field_error ie (obj_get (formData st')) k = None"
      unfolding ds by (rule saveStepData_valid [OF ui_inv_parts(2) [OF i] p])
    moreover have "\<forall>j f. 0 \<le> j \<and> j < currentStep st' \<and> f \<in> set (fields_or_empty j)
               \<longrightarrow> field_error ie (formValues st') f = None"
    proof (intro allI impI)
      fix j f
      assume a: "0 \<le> j \<and> j < currentStep st' \<and> f \<in> set (fields_or_empty j)"
      show "field_error ie (formValues st') f = None"
      proof (cases "j = currentStep st")
        case True
        with a p u show ?thesis by (simp add: vs)
      next
        case False
        with a cs have "0 \<le> j" "j < currentStep st" "f \<in> set (fields_or_empty j)" by simp_all
        then show ?thesis unfolding vs by (rule ui_inv_parts(3) [OF i])
      qed
    qed
    moreover have "currentStep st' = int (length steps) - 1 \<longrightarrow> isSubmitted st'"
    proof
      assume "currentStep st' = int (length steps) - 1"
      then have c2: "currentStep st = 2" by (simp add: cs length_steps)
      from p u have p': "\<forall>f\<in>set (fields_or_empty (currentStep st)).
                          field_error ie (formValues st) f = None" by simp
      from ui_inv_pass_all_valid [OF i c2 p'] s c2 u show "isSubmitted st'" by simp
    qed
    ultimately have "ui_inv ie st'" by (simp add: ui_inv_def)
    then show ?thesis by (simp only: fs)
  qed
qed

lemma ui_inv_render:
  assumes i: "ui_inv ie st"
  shows "ui_inv ie (render st)"
proof (cases "currentStep st = renderedStep st")
  case True
  then show ?thesis using i by (simp add: render_def)
next
  case False
  have "in_range (currentStep (render st))"
    using ui_inv_parts(1) [OF i] by (simp add: render_frame)
  moreover have "\<forall>k \<in> set (obj_keys (formData (render st))).
                   field_error ie (obj_get (formData (render st))) k = None"
    using ui_inv_parts(2) [OF i] by (simp add: render_frame)
  moreover have "\<forall>j f. 0 \<le> j \<and> j < currentStep (render st) \<and> f \<in> set (fields_or_empty j)
               \<longrightarrow> field_error ie (formValues (mount (currentStep st) st)) f = None"
  proof (intro allI impI)
    fix j f
    assume a: "0 \<le> j \<and> j < currentStep (render st) \<and> f \<in> set (fields_or_empty j)"
    then have b: "0 \<le> j" "j < currentStep st" "f \<in> set (fields_or_empty j)"
      by (simp_all add: render_frame)
    then have "j \<noteq> currentStep st" by simp
    then have "f \<notin> set (fields_or_empty (currentStep st))"
      using b(3) by (rule fields_disjoint)
    then have "formValues (mount (currentStep st) st) f = formValues st f"
      by (rule mount_other_step)
    then have "field_error ie (formValues (mount (currentStep st) st)) f =
               field_error ie (formValues st) f"
      by (rule field_error_cong)
    also have "\<dots> = None" using b by (rule ui_inv_parts(3) [OF i])
    finally show "field_error ie (formValues (mount (currentStep st) st)) f = None" .
  qed
  moreover have "\<forall>f. formValues (render st) f =
               (if f \<in> set (obj_keys (formData (render st))) then obj_get (formData (render st)) f
                else formValues (mount (currentStep st) st) f)"
    using False by (simp add: render_formValues render_frame)
  moreover have "currentStep (render st) = int (length steps) - 1 \<longrightarrow> isSubmitted (render st)"
    using ui_inv_parts(4) [OF i] by (simp add: render_frame length_steps)
  ultimately show ?thesis by (rule ui_inv_loaded)
qed

lemma ui_inv_Prev:
  assumes i: "ui_inv ie st" and o: "timely st Prev"
  shows "ui_inv ie (fire ie st Prev)"
proof -
  let ?p = "prev_from (renderedStep st) st"
  note r = ui_inv_parts(1) [OF i]
  from o have u: "renderedStep st = currentStep st" and n0: "renderedStep st \<noteq> 0"
    unfolding timely_def by simp_all
  with r have pos: "0 < renderedStep st" by (simp add: in_range_iff)
  have cp: "currentStep ?p = currentStep st - 1" using pos by (simp add: prev_from_def)
  have "in_range (currentStep ?p)" unfolding cp using r pos u by (simp add: in_range_iff)
  moreover have "\<forall>k \<in> set (obj_keys (formData ?p)). field_error ie (obj_get (formData ?p)) k = None"
    using ui_inv_parts(2) [OF i] by (simp add: prev_from_frame)
  moreover have "\<forall>j f. 0 \<le> j \<and> j < currentStep ?p \<and> f \<in> set (fields_or_empty j)
               \<longrightarrow> field_error ie (formValues ?p) f = None"
  proof (intro allI impI)
    fix j f
    assume "0 \<le> j \<and> j < currentStep ?p \<and> f \<in> set (fields_or_empty j)"
    with cp have "0 \<le> j" "j < currentStep st" "f \<in> set (fields_or_empty j)" by simp_all
    then show "field_error ie (formValues ?p) f = None"
      unfolding prev_from_frame by (rule ui_inv_parts(3) [OF i])
  qed
  moreover have "currentStep ?p = int (length steps) - 1 \<longrightarrow> isSubmitted ?p"
    unfolding cp using r by (simp add: length_steps in_range_iff)
  ultimately have "ui_inv ie ?p" by (simp add: ui_inv_def)
  then have "ui_inv ie (render ?p)" by (rule ui_inv_render)
  then show ?thesis by simp
qed

lemma ui_inv_not_Submit: "ui_inv ie st \<Longrightarrow> \<not> timely st Submit"
  by (auto simp: timely_def dest: ui_inv_parts(4))

lemma ui_inv_fire:
  assumes "ui_inv ie st" and "timely st e"
  shows "ui_inv ie (fire ie st e)"
proof (cases e)
  case (Input g v)
  with assms show ?thesis by (simp add: ui_inv_Input)
next
  case Next
  with assms show ?thesis by (simp only: ui_inv_Next)
next
  case Prev
  with assms show ?thesis by (simp only: ui_inv_Prev)
next
  case Submit
  with assms ui_inv_not_Submit [of ie st] show ?thesis by simp
next
  case Render
  with assms(1) show ?thesis by (simp add: ui_inv_render)
qed

lemma ui_reachable_inv: "ui_reachable ie st \<Longrightarrow> ui_inv ie st"
proof (induction rule: ui_reachable.induct)
  case ui_init
  then show ?case by (rule ui_inv_init)
next
  case (ui_fire st e)
  from ui_fire.IH ui_fire.hyps(2) show ?case by (rule ui_inv_fire)
qed


subsection \<open>The submitted flag\<close>

lemma next_from_isSubmitted_change:
  assumes n: "next_from ie c st = Inr st'" and a: "\<not> isSubmitted st" and b: "isSubmitted st'"
  shows "c = 2 \<and> currentStep st' = currentStep st + 1"
proof -
  let ?names = "step_fields (steps ! nat c)"
  from n have r: "in_range c" by (rule next_from_in_range)
  show ?thesis
  proof (cases "fst (trigger ie ?names st)")
    case False
    from next_from_fail [OF r False] n a b show ?thesis by auto
  next
    case True
    from r show ?thesis
    proof (cases rule: in_range_cases)
      case 1
      then have "c = 0 \<or> c = 1" by simp
      from next_from_move [OF this True] n a b show ?thesis by auto
    next
      case 2
      then have "c = 0 \<or> c = 1" by simp
      from next_from_move [OF this True] n a b show ?thesis by auto
    next
      case 3
      from next_from_submit [OF 3 True] n 3 show ?thesis by auto
    next
      case 4
      from next_from_last [OF 4 True] n a b show ?thesis by auto
    qed
  qed
qed

lemma fire_isSubmitted_change:
  assumes a: "\<not> isSubmitted st" and b: "isSubmitted (fire ie st e)"
  shows "(e = Next \<and> renderedStep st = 2 \<and> currentStep (fire ie st e) = currentStep st + 1)
         \<or> e = Submit"
proof (cases e)
  case (Input g v)
  with a b show ?thesis by (simp add: setValue_def)
next
  case Next
  show ?thesis
  proof (cases "next_from ie (renderedStep st) st")
    case (Inl x)
    with Next a b show ?thesis by simp
  next
    case (Inr st')
    with Next b have "isSubmitted st'" by simp
    from next_from_isSubmitted_change [OF Inr a this]
    show ?thesis using Next Inr by simp
  qed
next
  case Prev
  with a b show ?thesis by (simp add: render_frame prev_from_frame)
next
  case Submit
  then show ?thesis by simp
next
  case Render
  with a b show ?thesis by (simp add: render_frame)
qed

lemma ui_reachable_run:
  "ui_reachable ie st \<Longrightarrow> timely_run ie st es \<Longrightarrow> ui_reachable ie (run ie st es)"
proof (induction es arbitrary: st)
  case Nil
  then show ?case by (simp add: run_Nil)
next
  case (Cons e es)
  from Cons.prems(2) have o: "timely st e" and t: "timely_run ie (fire ie st e) es"
    by simp_all
  from Cons.prems(1) o have "ui_reachable ie (fire ie st e)" by (rule ui_fire)
  from Cons.IH [OF this t] show ?case by (simp add: run_Cons)
qed

text \<open>How many times the submit callback has run after a timely event.\<close>

lemma fire_processForm_count:
  assumes i: "ui_inv ie st" and o: "timely st e"
  shows "count_list (calls (fire ie st e)) ProcessForm =
           count_list (calls st) ProcessForm +
           (if e = Next \<and> currentStep st = 2 \<and> currentStep (fire ie st e) = 3 then 1 else 0)"
proof (cases e)
  case (Input g v)
  then show ?thesis by (simp add: setValue_def)
next
  case Next
  define c where "c = renderedStep st"
  let ?names = "step_fields (steps ! nat c)"
  from o Next have u: "c = currentStep st" and n3: "c \<noteq> 3"
    unfolding timely_def c_def by (simp_all add: length_steps)
  note r = ui_inv_parts(1) [OF i, folded u]
  have f: "fire ie st Next = (case next_from ie c st of Inl e \<Rightarrow> st | Inr st' \<Rightarrow> st')"
    by (simp add: c_def)
  have names: "?names = Some (fields_or_empty c)" using r n3 by (simp add: step_fields_eq)
  show ?thesis
  proof (cases "fst (trigger ie ?names st)")
    case False
    from next_from_fail [OF r False] obtain st' where
      n: "next_from ie c st = Inr st'" and c': "currentStep st' = currentStep st"
      and l: "calls st' = calls st @ [Trigger ?names]" by blast
    have fs: "fire ie st Next = st'" unfolding f using n by simp
    show ?thesis unfolding Next fs using c' l by simp
  next
    case True
    from r n3 have "(c = 0 \<or> c = 1) \<or> c = 2"
      by (cases rule: in_range_cases) simp_all
    then show ?thesis
    proof
      assume a: "c = 0 \<or> c = 1"
      from next_from_move [OF a True] obtain st' where
        n: "next_from ie c st = Inr st'" and c': "currentStep st' = currentStep st + 1"
        and l: "calls st' = calls st @ [Trigger ?names, SetCurrentStep]" by blast
      have fs: "fire ie st Next = st'" unfolding f using n by simp
      show ?thesis unfolding Next fs using c' l a u by auto
    next
      assume a: "c = 2"
      from True names have p: "\<forall>f\<in>set (fields_or_empty c). field_error ie (formValues st) f = None"
        by (simp add: trigger_Some_fst)
      from a u have c2: "currentStep st = 2" by simp
      from p u have p': "\<forall>f\<in>set (fields_or_empty (currentStep st)).
                          field_error ie (formValues st) f = None" by simp
      note av = ui_inv_pass_all_valid [OF i c2 p']
      from next_from_submit [OF a True] obtain st' where
        n: "next_from ie c st = Inr st'" and c': "currentStep st' = currentStep st + 1"
        and l: "calls st' = calls st @ [Trigger ?names, HandleSubmit] @
                       (if \<forall>n. field_error ie (formValues st) n = None then [ProcessForm] else []) @
                       [SetCurrentStep]" by blast
      have fs: "fire ie st Next = st'" unfolding f using n by simp
      show ?thesis unfolding Next fs using c' l c2 av by simp
    qed
  qed
next
  case Prev
  then show ?thesis by (simp add: render_frame prev_from_def)
next
  case Submit
  with o ui_inv_not_Submit [OF i] show ?thesis by simp
next
  case Render
  then show ?thesis by (simp add: render_frame)
qed

text \<open>
  Claim C4, as the code has it, for executions in which every click and edit reaches the
  page only after the render of the one before (what two clicks on Next handled by the
  same render do is left open here). The submitted flag is never reset by any event. A
  state on the review step has the flag set; the only event that takes the flag from
  false to true is the Next that completes the step before the review step, and every
  event that moves from that step to the review step leaves it set. The submit callback,
  which sets the flag, runs once in each such completion and in no other event: a later
  completion of that step, after going back, runs it and sets the flag again.
\<close>

theorem isSubmitted_once:
  "(isSubmitted st \<longrightarrow> isSubmitted (fire ie st e)) \<and>
   (ui_reachable ie st \<and> timely st e \<longrightarrow>
      (currentStep st = int (length steps) - 1 \<longrightarrow> isSubmitted st) \<and>
      (\<not> isSubmitted st \<and> isSubmitted (fire ie st e) \<longrightarrow>
         e = Next \<and> currentStep st = int (length steps) - 2 \<and>
         currentStep (fire ie st e) = int (length steps) - 1) \<and>
      (currentStep st = int (length steps) - 2 \<and>
       currentStep (fire ie st e) = int (length steps) - 1 \<longrightarrow> isSubmitted (fire ie st e)) \<and>
      count_list (calls (fire ie st e)) ProcessForm =
        count_list (calls st) ProcessForm +
        (if e = Next \<and> currentStep st = int (length steps) - 2 \<and>
            currentStep (fire ie st e) = int (length steps) - 1 then 1 else 0))"
proof (intro conjI impI)
  assume "isSubmitted st"
  then show "isSubmitted (fire ie st e)" by (rule fire_isSubmitted_mono)
next
  assume "ui_reachable ie st \<and> timely st e" and "currentStep st = int (length steps) - 1"
  then show "isSubmitted st"
    using ui_inv_parts(4) [OF ui_reachable_inv, of ie st] by (simp add: length_steps)
next
  assume u: "ui_reachable ie st \<and> timely st e"
    and c: "\<not> isSubmitted st \<and> isSubmitted (fire ie st e)"
  from u have "ui_inv ie st" by (intro ui_reachable_inv) simp
  then have "\<not> timely st Submit" by (rule ui_inv_not_Submit)
  with u have "e \<noteq> Submit" by auto
  with fire_isSubmitted_change [of st ie e] c
  have k: "e = Next \<and> renderedStep st = 2 \<and> currentStep (fire ie st e) = currentStep st + 1"
    by blast
  from u k have r: "renderedStep st = currentStep st" unfolding timely_def by blast
  from k show "e = Next" by (rule conjunct1)
  from k r show "currentStep st = int (length steps) - 2" by (simp add: length_steps)
  from k have k1: "renderedStep st = 2" and k2: "currentStep (fire ie st e) = currentStep st + 1"
    by blast+
  from k1 r have "currentStep st = 2" by simp
  with k2 have "currentStep (fire ie st e) = 3" by linarith
  then show "currentStep (fire ie st e) = int (length steps) - 1"
    by (simp only: length_steps)
next
  assume u: "ui_reachable ie st \<and> timely st e"
    and c: "currentStep st = int (length steps) - 2 \<and>
            currentStep (fire ie st e) = int (length steps) - 1"
  from u have "ui_inv ie (fire ie st e)"
    by (intro ui_inv_fire ui_reachable_inv) simp_all
  from ui_inv_parts(4) [OF this] c show "isSubmitted (fire ie st e)"
    by (simp add: length_steps)
next
  assume u: "ui_reachable ie st \<and> timely st e"
  then have i: "ui_inv ie st" and o: "timely st e" by (simp_all add: ui_reachable_inv)
  have l: "int (length steps) - 2 = 2" "int (length steps) - 1 = 3" by (simp_all add: length_steps)
  show "count_list (calls (fire ie st e)) ProcessForm =
        count_list (calls st) ProcessForm +
        (if e = Next \<and> currentStep st = int (length steps) - 2 \<and>
            currentStep (fire ie st e) = int (length steps) - 1 then 1 else 0)"
    unfolding l by (rule fire_processForm_count [OF i o])
qed

theorem isSubmitted_once_witness:
  "\<not> isSubmitted (run sample_email init
       (personal_inputs @ [Next, Render] @ address_inputs @ [Next, Render])) \<and>
   isSubmitted (fire sample_email (run sample_email init
       (personal_inputs @ [Next, Render] @ address_inputs @ [Next, Render])) Next) \<and>
   count_list (calls (fire sample_email (run sample_email init
       (personal_inputs @ [Next, Render] @ address_inputs @ [Next, Render])) Next)) ProcessForm = 1 \<and>
   isSubmitted (fire sample_email (fire sample_email (run sample_email init
       (personal_inputs @ [Next, Render] @ address_inputs @ [Next, Render])) Next) Prev)"
proof -
  define st where "st = run sample_email init
       (personal_inputs @ [Next, Render] @ address_inputs @ [Next, Render])"
  have o: "timely_run sample_email init
       (personal_inputs @ [Next, Render] @ address_inputs @ [Next, Render])"
    by code_simp
  have u: "ui_reachable sample_email st"
    unfolding st_def using ui_init o by (rule ui_reachable_run)
  have e: "timely st Next" unfolding st_def by code_simp
  have c: "currentStep st = int (length steps) - 2 \<and>
           currentStep (fire sample_email st Next) = int (length steps) - 1"
    unfolding st_def by code_simp
  have n: "\<not> isSubmitted st" unfolding st_def by code_simp
  have z: "count_list (calls st) ProcessForm = 0" unfolding st_def by code_simp
  define st' where "st' = fire sample_email st Next"
  note t = isSubmitted_once [of st sample_email Next, folded st'_def]
  from t u e c [folded st'_def] have s: "isSubmitted st'" by blast
  from t u e have "count_list (calls st') ProcessForm =
        count_list (calls st) ProcessForm +
        (if Next = Next \<and> currentStep st = int (length steps) - 2 \<and>
            currentStep st' = int (length steps) - 1 then 1 else 0)" by blast
  with c [folded st'_def] z have k: "count_list (calls st') ProcessForm = 1" by simp
  from isSubmitted_once [of st' sample_email Prev] s
  have p: "isSubmitted (fire sample_email st' Prev)" by blast
  show ?thesis unfolding st_def [symmetric] st'_def [symmetric] by (intro conjI n s k p)
qed

text \<open>
  Claim C4 as stated fails in its last part: in a run of timely events that reaches the
  review step, goes back one step and advances again, the submit callback runs a second
  time and sets the flag again.
\<close>

theorem processForm_twice_counterexample:
  "timely_run sample_email init
      (personal_inputs @ [Next, Render] @ address_inputs @
       [Next, Render, Next, Render, Prev, Next, Render]) \<and>
   count_list (calls (run sample_email init
      (personal_inputs @ [Next, Render] @ address_inputs @
       [Next, Render, Next, Render]))) ProcessForm = 1 \<and>
   count_list (calls (run sample_email init
      (personal_inputs @ [Next, Render] @ address_inputs @
       [Next, Render, Next, Render, Prev, Next, Render]))) ProcessForm = 2"
  by code_simp


subsection \<open>Two clicks on one render\<close>

lemma fire_calls_forward:
  assumes i: "ui_inv ie st" and o: "timely st e" and np: "e \<noteq> Prev"
    and k: "length (filter full_validation (calls st)) = (if currentStep st = 3 then 1 else 0)"
  shows "length (filter full_validation (calls (fire ie st e))) =
           (if currentStep (fire ie st e) = 3 then 1 else 0)"
proof (cases e)
  case (Input g v)
  with k show ?thesis by (simp add: setValue_def)
next
  case Next
  define c where "c = renderedStep st"
  let ?names = "step_fields (steps ! nat c)"
  from o Next have u: "c = currentStep st" and n3: "c \<noteq> 3"
    unfolding timely_def c_def by (simp_all add: length_steps)
  note r = ui_inv_parts(1) [OF i, folded u]
  have f: "fire ie st Next = (case next_from ie c st of Inl e \<Rightarrow> st | Inr st' \<Rightarrow> st')"
    by (simp add: c_def)
  have names: "?names = Some (fields_or_empty c)" using r n3 by (simp add: step_fields_eq)
  have n3': "currentStep st \<noteq> 3" using n3 u by simp
  have cnt: "length (filter full_validation (calls st)) = 0" using k n3' by simp
  show ?thesis
  proof (cases "fst (trigger ie ?names st)")
    case False
    from next_from_fail [OF r False] obtain st' where
      n: "next_from ie c st = Inr st'" and c': "currentStep st' = currentStep st"
      and l: "calls st' = calls st @ [Trigger ?names]" by blast
    have fs: "fire ie st Next = st'" unfolding f using n by simp
    show ?thesis unfolding Next fs using c' l [unfolded names] cnt n3'
      by (simp add: full_validation_def)
  next
    case True
    from r n3 have "(c = 0 \<or> c = 1) \<or> c = 2"
      by (cases rule: in_range_cases) simp_all
    then show ?thesis
    proof
      assume a: "c = 0 \<or> c = 1"
      from next_from_move [OF a True] obtain st' where
        n: "next_from ie c st = Inr st'" and c': "currentStep st' = currentStep st + 1"
        and l: "calls st' = calls st @ [Trigger ?names, SetCurrentStep]" by blast
      have fs: "fire ie st Next = st'" unfolding f using n by simp
      from a u have "currentStep st = 0 \<or> currentStep st = 1" by simp
      then show ?thesis unfolding Next fs using c' l [unfolded names] cnt
        by (auto simp: full_validation_def)
    next
      assume a: "c = 2"
      from next_from_submit [OF a True] obtain st' where
        n: "next_from ie c st = Inr st'" and c': "currentStep st' = currentStep st + 1"
        and l: "calls st' = calls st @ [Trigger ?names, HandleSubmit] @
                       (if \<forall>n. field_error ie (formValues st) n = None then [ProcessForm] else []) @
                       [SetCurrentStep]" by blast
      have fs: "fire ie st Next = st'" unfolding f using n by simp
      from a u have "currentStep st = 2" by simp
      then show ?thesis unfolding Next fs using c' l [unfolded names] cnt
        by (simp add: full_validation_def)
    qed
  qed
next
  case Prev
  with np show ?thesis by simp
next
  case Submit
  with o ui_inv_not_Submit [OF i] show ?thesis by simp
next
  case Render
  with k show ?thesis by (simp add: render_frame)
qed

text \<open>
  When every event is timely, a run without Previous has validated the whole schema once
  if it has reached the review step and not at all otherwise.
\<close>

lemma forward_run_count:
  "ui_inv ie st \<Longrightarrow> timely_run ie st es \<Longrightarrow> Prev \<notin> set es \<Longrightarrow>
   length (filter full_validation (calls st)) = (if currentStep st = 3 then 1 else 0) \<Longrightarrow>
   length (filter full_validation (calls (run ie st es))) =
     (if currentStep (run ie st es) = 3 then 1 else 0)"
proof (induction es arbitrary: st)
  case Nil
  then show ?case by (simp add: run_Nil)
next
  case (Cons e es)
  from Cons.prems have o: "timely st e" and t: "timely_run ie (fire ie st e) es"
    and np: "e \<noteq> Prev" and ns: "Prev \<notin> set es" by auto
  have i: "ui_inv ie (fire ie st e)" using Cons.prems(1) o by (rule ui_inv_fire)
  have k: "length (filter full_validation (calls (fire ie st e))) =
           (if currentStep (fire ie st e) = 3 then 1 else 0)"
    using Cons.prems(1) o np Cons.prems(4) by (rule fire_calls_forward)
  from Cons.IH [OF i t ns k] show ?case by (simp only: run_Cons)
qed

lemma timely_forward_validates_once:
  assumes "timely_run ie init es" and "Prev \<notin> set es"
  shows "length (filter full_validation (calls (run ie init es))) =
           (if currentStep (run ie init es) = int (length steps) - 1 then 1 else 0)"
proof -
  have k: "length (filter full_validation (calls init)) = (if currentStep init = 3 then 1 else 0)"
    by (simp add: init_frame)
  from forward_run_count [OF ui_inv_init assms k] show ?thesis by (simp add: length_steps)
qed

text \<open>With timely events the step index stays inside the table.\<close>

lemma ui_reachable_step_in_range:
  "ui_reachable ie st \<Longrightarrow> 0 \<le> currentStep st \<and> currentStep st \<le> int (length steps) - 1"
  using ui_inv_parts(1) [OF ui_reachable_inv, of ie st] by (simp add: in_range_def)

text \<open>Whatever the events, the index never falls below the one shown, which is never negative.\<close>

lemma fire_step_lower:
  assumes "0 \<le> renderedStep st \<and> renderedStep st \<le> currentStep st"
  shows "0 \<le> renderedStep (fire ie st e) \<and> renderedStep (fire ie st e) \<le> currentStep (fire ie st e)"
proof (cases e)
  case (Input g v)
  with assms show ?thesis by (simp add: setValue_def)
next
  case Next
  show ?thesis
  proof (cases "next_from ie (renderedStep st) st")
    case (Inl a)
    with Next assms show ?thesis by simp
  next
    case (Inr st')
    from Inr have r: "in_range (renderedStep st)" by (rule next_from_in_range)
    have "currentStep st \<le> currentStep st'"
      using Inr
      by (auto simp: next_from_unfold [OF r] Let_def trigger_frame saveStepData_from_other
          split: if_splits)
    with Next Inr assms show ?thesis by (simp add: next_from_formValues(2) [OF Inr])
  qed
next
  case Prev
  with assms show ?thesis by (auto simp: render_frame prev_from_def)
next
  case Submit
  with assms show ?thesis by (simp add: handleSubmit_frame)
next
  case Render
  with assms show ?thesis by (simp add: render_frame)
qed

lemma reachable_step_lower:
  "reachable ie st \<Longrightarrow> 0 \<le> renderedStep st \<and> renderedStep st \<le> currentStep st"
proof (induction rule: reachable.induct)
  case reachable_init
  then show ?case by (simp add: init_frame)
next
  case (reachable_fire st e)
  from reachable_fire.IH show ?case by (rule fire_step_lower)
qed

text \<open>
  Claim C8 at a failing input. On the preferences step two clicks on Next reach the
  handler of the same render. Both calls find \<^verbatim>\<open>currentStep < steps.length - 1\<close> true for
  the 2 their closure holds, and each adds one to the live index: it becomes 4, one past
  the last step.
\<close>

theorem next_twice_leaves_range:
  "reachable sample_email (run sample_email init
      (personal_inputs @ [Next, Render] @ address_inputs @ [Next, Render, Next, Next])) \<and>
   timely_run sample_email init
      (personal_inputs @ [Next, Render] @ address_inputs @ [Next, Render, Next]) \<and>
   offered (run sample_email init
      (personal_inputs @ [Next, Render] @ address_inputs @ [Next, Render, Next])) Next \<and>
   currentStep (run sample_email init
      (personal_inputs @ [Next, Render] @ address_inputs @ [Next, Render, Next, Next])) = 4 \<and>
   int (length steps) - 1 = 3"
proof -
  have r: "reachable sample_email (run sample_email init
      (personal_inputs @ [Next, Render] @ address_inputs @ [Next, Render, Next, Next]))"
    by (rule reachable_run [OF reachable_init])
  have t: "timely_run sample_email init
      (personal_inputs @ [Next, Render] @ address_inputs @ [Next, Render, Next])"
    by code_simp
  have o: "offered (run sample_email init
      (personal_inputs @ [Next, Render] @ address_inputs @ [Next, Render, Next])) Next"
    by code_simp
  have c: "currentStep (run sample_email init
      (personal_inputs @ [Next, Render] @ address_inputs @ [Next, Render, Next, Next])) = 4"
    by code_simp
  have l: "int (length steps) - 1 = 3" by (simp add: length_steps)
  show ?thesis by (intro conjI r t o c l)
qed

text \<open>
  Claim C5 at a failing input. In the same run without Previous, both calls also find
  \<^verbatim>\<open>currentStep === steps.length - 2\<close> true, so \<^verbatim>\<open>handleSubmit\<close> validates the whole schema
  twice and the submit callback runs twice, the second time when the live index has
  already moved to the review step.
\<close>

theorem next_twice_validates_twice:
  "Prev \<notin> set (personal_inputs @ [Next, Render] @ address_inputs @ [Next, Render, Next, Next]) \<and>
   offered (run sample_email init
      (personal_inputs @ [Next, Render] @ address_inputs @ [Next, Render, Next])) Next \<and>
   currentStep (run sample_email init
      (personal_inputs @ [Next, Render] @ address_inputs @ [Next, Render, Next])) = 3 \<and>
   length (filter full_validation (calls (run sample_email init
      (personal_inputs @ [Next, Render] @ address_inputs @ [Next, Render, Next])))) = 1 \<and>
   length (filter full_validation (calls (run sample_email init
      (personal_inputs @ [Next, Render] @ address_inputs @ [Next, Render, Next, Next])))) = 2 \<and>
   count_list (calls (run sample_email init
      (personal_inputs @ [Next, Render] @ address_inputs @ [Next, Render, Next, Next]))) ProcessForm = 2"
  by code_simp


end
